theory Spec2Isabelle
  imports Main "HOL-Library.List_Lexorder" "HOL-Library.AList" "HOL-Library.Sublist"
begin

section \<open>Errors\<close>

text \<open>
  The descriptor code of \<^verbatim>\<open>io_descriptor/base.py\<close> raises one exception class,
  \<^verbatim>\<open>TankDescriptorError\<close>, at several places; the places are kept apart here, one
  constructor each, under the names the specification gives them. The message travels
  with the error where a property speaks about it; a message that quotes a dictionary, a
  URI or a bundle type is written without the quotation. Exceptions of the Python runtime that
  the code lets escape are constructors of their own.
\<close>

datatype error =
    InvalidVersionPattern string  \<comment> \<open>"Cannot parse version expression", "Incorrect version pattern"\<close>
  | NoMatchingVersion string      \<comment> \<open>"... does not have a version matching the pattern ..."\<close>
  | MalformedDescriptor string    \<comment> \<open>"Invalid uri ...", "Cannot create uri from ..."\<close>
  | MetadataMissing string        \<comment> \<open>"Toolkit metadata file '...' missing."\<close>
  | MetadataUnreadable string     \<comment> \<open>"Cannot load metadata file '...'"\<close>
  | ProviderFailure string        \<comment> \<open>whatever \<^verbatim>\<open>download_local\<close> raises\<close>
  | PyValueError                  \<comment> \<open>\<^verbatim>\<open>max()\<close> of an empty sequence, a failed tuple unpacking\<close>
  | PyTypeError                   \<comment> \<open>\<^verbatim>\<open>None + str\<close>\<close>
  | PyAttributeError              \<comment> \<open>\<^verbatim>\<open>os.path.join(None, ...)\<close>\<close>
  | PyRuntimeError string         \<comment> \<open>"Unknown bundle type ..."\<close>
  | PyIndexError                  \<comment> \<open>an index into an empty list\<close>

section \<open>Python strings\<close>

text \<open>\<^verbatim>\<open>s.split(c)\<close> for a separator of one character: never an empty list.\<close>

fun split_on :: "char \<Rightarrow> string \<Rightarrow> string list" where
  "split_on c [] = [[]]"
| "split_on c (x # xs) =
     (if x = c then [] # split_on c xs
      else case split_on c xs of
             [] \<Rightarrow> [[x]]
           | y # ys \<Rightarrow> (x # y) # ys)"

text \<open>\<^verbatim>\<open>sep.join(xs)\<close>.\<close>

fun join :: "string \<Rightarrow> string list \<Rightarrow> string" where
  "join sep [] = []"
| "join sep [x] = x"
| "join sep (x # y # ys) = x @ sep @ join sep (y # ys)"

definition is_digit :: "char \<Rightarrow> bool" where
  "is_digit c = (c \<in> set ''0123456789'')"

definition is_space :: "char \<Rightarrow> bool" where
  "is_space c = (c \<in> set [CHR '' '', CHR 0x09, CHR 0x0A, CHR 0x0B, CHR 0x0C, CHR 0x0D])"

definition digit_val :: "char \<Rightarrow> nat" where
  "digit_val c = of_char c - 48"

definition digits_val :: "string \<Rightarrow> nat" where
  "digits_val ds = foldl (\<lambda>n c. 10 * n + digit_val c) 0 ds"

text \<open>
  \<^verbatim>\<open>int(s)\<close> on a string, in base ten, as Python 2 reads it: blanks are skipped, then
  one sign may stand, blanks are skipped again, and digits are read; at least one digit
  must have been read, and only blanks may follow. The value is unbounded. \<open>None\<close> is
  the \<^verbatim>\<open>ValueError\<close>.
\<close>

definition py_int :: "string \<Rightarrow> int option" where
  "py_int s =
     (let t = dropWhile is_space s;
          neg = (take 1 t = ''-'');
          u = dropWhile is_space (if take 1 t = ''-'' \<or> take 1 t = ''+'' then drop 1 t else t);
          ds = takeWhile is_digit u;
          rest = dropWhile is_digit u
      in if ds \<noteq> [] \<and> list_all is_space rest
         then Some (if neg then - int (digits_val ds) else int (digits_val ds))
         else None)"

text \<open>\<^verbatim>\<open>"%d" % n\<close>.\<close>

definition digit_char :: "nat \<Rightarrow> char" where
  "digit_char n = char_of (48 + n)"

fun nat_digits :: "nat \<Rightarrow> string" where
  "nat_digits n = (if n < 10 then [digit_char n] else nat_digits (n div 10) @ [digit_char (n mod 10)])"

declare nat_digits.simps [simp del]

definition fmt_d :: "int \<Rightarrow> string" where
  "fmt_d i = (if i < 0 then CHR ''-'' # nat_digits (nat (- i)) else nat_digits (nat i))"

section \<open>Regular expressions of the pattern check\<close>

text \<open>
  The two expressions that \<^verbatim>\<open>_find_latest_tag_by_pattern\<close> hands to \<^verbatim>\<open>re.match\<close> use
  character classes, alternation, concatenation and repetition only, so whether they
  match is a question of membership in a regular language, decided here by derivatives.
\<close>

datatype rx =
    Never
  | Eps
  | Cls "char \<Rightarrow> bool"
  | Alt rx rx
  | Seq rx rx
  | Rep rx

fun nullable :: "rx \<Rightarrow> bool" where
  "nullable Never = False"
| "nullable Eps = True"
| "nullable (Cls P) = False"
| "nullable (Alt r s) = (nullable r \<or> nullable s)"
| "nullable (Seq r s) = (nullable r \<and> nullable s)"
| "nullable (Rep r) = True"

fun deriv :: "char \<Rightarrow> rx \<Rightarrow> rx" where
  "deriv c Never = Never"
| "deriv c Eps = Never"
| "deriv c (Cls P) = (if P c then Eps else Never)"
| "deriv c (Alt r s) = Alt (deriv c r) (deriv c s)"
| "deriv c (Seq r s) =
     (if nullable r then Alt (Seq (deriv c r) s) (deriv c s) else Seq (deriv c r) s)"
| "deriv c (Rep r) = Seq (deriv c r) (Rep r)"

definition rx_matches :: "rx \<Rightarrow> string \<Rightarrow> bool" where
  "rx_matches r s = nullable (foldl (\<lambda>r c. deriv c r) r s)"

text \<open>
  \<^verbatim>\<open>re.match("^ r $", s)\<close>: the expression is anchored at the start, and \<^verbatim>\<open>$\<close> stands
  at the end of the string or before a newline that ends it.
\<close>

definition re_match_anchored :: "rx \<Rightarrow> string \<Rightarrow> bool" where
  "re_match_anchored r s =
     (rx_matches r s \<or> (s \<noteq> [] \<and> last s = CHR 0x0A \<and> rx_matches r (butlast s)))"

definition chr_rx :: "char \<Rightarrow> rx" where
  "chr_rx c = Cls (\<lambda>x. x = c)"

definition plus_rx :: "rx \<Rightarrow> rx" where
  "plus_rx r = Seq r (Rep r)"

text \<open>\<^verbatim>\<open>([0-9]+|x)\<close>\<close>

definition segment_rx :: rx where
  "segment_rx = Alt (plus_rx (Cls is_digit)) (chr_rx CHR ''x'')"

text \<open>\<^verbatim>\<open>(.([0-9]+|x))\<close>: the dot is not escaped, it is any character but a newline.\<close>

definition group_rx :: rx where
  "group_rx = Seq (Cls (\<lambda>x. x \<noteq> CHR 0x0A)) segment_rx"

text \<open>\<^verbatim>\<open>^v([0-9]+|x)(.([0-9]+|x)){2,}$\<close>\<close>

definition grammar_rx :: rx where
  "grammar_rx = Seq (chr_rx CHR ''v'') (Seq segment_rx (Seq group_rx (Seq group_rx (Rep group_rx))))"

text \<open>\<^verbatim>\<open>^v[0-9\.]+[x\.]+[0-9\.]+$\<close>\<close>

definition digit_after_x_rx :: rx where
  "digit_after_x_rx =
     Seq (chr_rx CHR ''v'')
       (Seq (plus_rx (Cls (\<lambda>x. is_digit x \<or> x = CHR ''.'')))
         (Seq (plus_rx (Cls (\<lambda>x. x = CHR ''x'' \<or> x = CHR ''.'')))
           (plus_rx (Cls (\<lambda>x. is_digit x \<or> x = CHR ''.'')))))"

text \<open>
  \<^verbatim>\<open>re.findall("([0-9]+|x)", s)\<close>: from left to right, a longest run of digits or one
  \<^verbatim>\<open>x\<close>; other characters are skipped.
\<close>

function findall_segments :: "string \<Rightarrow> string list" where
  "findall_segments [] = []"
| "findall_segments (c # cs) =
     (if is_digit c then takeWhile is_digit (c # cs) # findall_segments (dropWhile is_digit cs)
      else if c = CHR ''x'' then ''x'' # findall_segments cs
      else findall_segments cs)"
  by pat_completeness auto
termination
  by (relation "measure length") (auto simp: length_dropWhile_le less_Suc_eq_le)

declare findall_segments.simps [simp del]

section \<open>The version trie\<close>

text \<open>
  \<^verbatim>\<open>versions\<close> is a dictionary from integers to dictionaries of the same kind. The
  code asks a dictionary for membership of a key, for the value at a key, for its keys
  and for its length only, so the order of the entries carries no meaning.
\<close>

datatype trie = Trie "(int \<times> trie) list"

fun entries :: "trie \<Rightarrow> (int \<times> trie) list" where
  "entries (Trie kvs) = kvs"

definition keys :: "trie \<Rightarrow> int list" where
  "keys t = map fst (entries t)"

definition child :: "trie \<Rightarrow> int \<Rightarrow> trie option" where
  "child t k = map_of (entries t) k"

text \<open>
  \<^verbatim>\<open>
  current = versions
  for number in version_split:
      if number not in current:
          current[number] = {}
      current = current[number]
  \<close>
\<close>

fun insert_version :: "int list \<Rightarrow> trie \<Rightarrow> trie" where
  "insert_version [] t = t"
| "insert_version (n # ns) t =
     (case child t n of
        None \<Rightarrow> Trie (entries t @ [(n, insert_version ns (Trie []))])
      | Some sub \<Rightarrow> Trie (AList.update n (insert_version ns sub) (entries t)))"

text \<open>
  \<^verbatim>\<open>map(int, version_num[1:].split("."))\<close>, skipped when \<^verbatim>\<open>int\<close> raises or when fewer
  than three numbers come out. The first character is cut off whatever it is.
\<close>

definition tag_version :: "string \<Rightarrow> int list option" where
  "tag_version version_num =
     (let parts = map py_int (split_on CHR ''.'' (drop 1 version_num))
      in if list_ex (\<lambda>p. p = None) parts then None
         else if length parts < 3 then None
         else Some (map the parts))"

definition build_versions :: "string list \<Rightarrow> trie" where
  "build_versions version_numbers =
     foldl (\<lambda>versions version_num.
              case tag_version version_num of
                None \<Rightarrow> versions
              | Some version_split \<Rightarrow> insert_version version_split versions)
           (Trie []) version_numbers"

section \<open>The version pattern matcher\<close>

text \<open>\<^verbatim>\<open>max(current.keys())\<close> on a dictionary that has a key.\<close>

definition max_key :: "trie \<Rightarrow> int" where
  "max_key t = Max (set (keys t))"

definition add_digit :: "string option \<Rightarrow> int \<Rightarrow> string" where
  "add_digit version_to_use version_digit =
     (case version_to_use of
        None \<Rightarrow> ''v'' @ fmt_d version_digit
      | Some s \<Rightarrow> s @ ''.'' @ fmt_d version_digit)"

definition quoted :: "string \<Rightarrow> string" where
  "quoted s = [CHR 0x27] @ s @ [CHR 0x27]"

definition no_match_message :: "string \<Rightarrow> string \<Rightarrow> string list \<Rightarrow> string" where
  "no_match_message system_name pattern version_numbers =
     quoted system_name @ '' does not have a version matching the pattern ''
     @ quoted pattern @ ''. Available versions are: '' @ join '', '' version_numbers"

text \<open>
  The loop over the segments of the pattern. \<open>msg\<close> is the message of the error the loop
  raises when a number is not a key of the current dictionary.
\<close>

fun match_segments ::
  "string \<Rightarrow> string list \<Rightarrow> trie \<Rightarrow> string option \<Rightarrow> error + (trie \<times> string option)" where
  "match_segments msg [] current version_to_use = Inr (current, version_to_use)"
| "match_segments msg (seg # segs) current version_to_use =
     (if seg = ''x'' \<and> keys current = [] then Inl PyValueError
      else
        case (if seg = ''x'' then Some (max_key current) else py_int seg) of
          None \<Rightarrow> Inl PyValueError
        | Some version_digit \<Rightarrow>
            (case child current version_digit of
               None \<Rightarrow> Inl (NoMatchingVersion msg)
             | Some sub \<Rightarrow>
                 match_segments msg segs sub (Some (add_digit version_to_use version_digit))))"

lemma child_smaller: "child t k = Some sub \<Longrightarrow> size sub < size t"
proof (cases t)
  case (Trie kvs)
  assume "child t k = Some sub"
  with Trie have "(k, sub) \<in> set kvs"
    by (auto simp: child_def dest: map_of_SomeD)
  then have "size sub < Suc (size_list (size_prod (\<lambda>_. 0) size) kvs)"
    by (induction kvs) auto
  with Trie show ?thesis by simp
qed

text \<open>
  \<^verbatim>\<open>
  while len(current):
      version_digit = max(current.keys())
      current = current[version_digit]
      version_to_use = version_to_use + ".%d" % version_digit
  \<close>
  The greatest key of a dictionary is one of its keys, so the lookup never fails; the
  model has the branch all the same and leaves the loop there.
\<close>

function fork_descent :: "trie \<Rightarrow> string \<Rightarrow> string" where
  "fork_descent current version_to_use =
     (if keys current = [] then version_to_use
      else
        case child current (max_key current) of
          None \<Rightarrow> version_to_use
        | Some sub \<Rightarrow> fork_descent sub (version_to_use @ ''.'' @ fmt_d (max_key current)))"
  by pat_completeness auto
termination
  by (relation "measure (\<lambda>(t, v). size t)") (auto dest: child_smaller)

declare fork_descent.simps [simp del]

text \<open>
  \<^verbatim>\<open>_find_latest_tag_by_pattern(self, version_numbers, pattern)\<close>. The name that
  \<^verbatim>\<open>self.get_system_name()\<close> returns is left to the deriving classes and is a
  parameter here. The dictionary is filled before the pattern is looked at; the pattern
  is then checked, split and followed through the dictionary. After a pattern that the
  first check lets through, \<open>version_to_use\<close> is a string when the first loop ends; the
  model returns \<open>PyTypeError\<close> for the case that it is not.
\<close>

definition find_latest_tag_by_pattern :: "string \<Rightarrow> string list \<Rightarrow> string \<Rightarrow> error + string" where
  "find_latest_tag_by_pattern system_name version_numbers pattern =
     (let versions = build_versions version_numbers in
      if \<not> re_match_anchored grammar_rx pattern
      then Inl (InvalidVersionPattern (''Cannot parse version expression '' @ quoted pattern @ ''!''))
      else
        let version_split = findall_segments pattern in
        if ''x'' \<in> set version_split \<and> re_match_anchored digit_after_x_rx pattern
        then Inl (InvalidVersionPattern
                    (''Incorrect version pattern '' @ quoted pattern @ ''. ''
                     @ ''There should be no digit after a '' @ quoted ''x'' @ ''.''))
        else
          case match_segments (no_match_message system_name pattern version_numbers)
                 version_split versions None of
            Inl e \<Rightarrow> Inl e
          | Inr (current, None) \<Rightarrow> Inl PyTypeError
          | Inr (current, Some version_to_use) \<Rightarrow> Inr (fork_descent current version_to_use))"


section \<open>What the matcher is measured against\<close>

text \<open>
  A list of numbers is a path of a trie when it can be followed from the root, key by
  key; it ends at a leaf when the dictionary it arrives at is empty.
\<close>

fun subtrie :: "trie \<Rightarrow> int list \<Rightarrow> trie option" where
  "subtrie t [] = Some t"
| "subtrie t (k # ks) = (case child t k of None \<Rightarrow> None | Some s \<Rightarrow> subtrie s ks)"

definition has_path :: "trie \<Rightarrow> int list \<Rightarrow> bool" where
  "has_path t p = (subtrie t p \<noteq> None)"

definition ends_at_leaf :: "trie \<Rightarrow> int list \<Rightarrow> bool" where
  "ends_at_leaf t p = (case subtrie t p of None \<Rightarrow> False | Some s \<Rightarrow> keys s = [])"

text \<open>
  A version is consistent with the segments of a pattern when it has a number for every
  segment and carries, at every segment that is not the wildcard, the number written
  there. Versions are compared number by number from the left (the order of
  \<open>List_Lexorder\<close> on lists of integers), a version coming before each of its forks.
\<close>

fun consistent :: "string list \<Rightarrow> int list \<Rightarrow> bool" where
  "consistent [] l = True"
| "consistent (seg # segs) [] = False"
| "consistent (seg # segs) (k # ks) = ((seg = ''x'' \<or> py_int seg = Some k) \<and> consistent segs ks)"

text \<open>The versions the code reads out of the tags, and how a version is written.\<close>

definition parsed_versions :: "string list \<Rightarrow> int list list" where
  "parsed_versions version_numbers = List.map_filter tag_version version_numbers"

definition format_version :: "int list \<Rightarrow> string" where
  "format_version g = ''v'' @ join ''.'' (map fmt_d g)"

subsection \<open>Paths of the trie that the tags build\<close>

lemma child_keys: "(child t k \<noteq> None) = (k \<in> set (keys t))"
  by (cases t) (simp add: child_def keys_def map_of_eq_None_iff)

lemma child_empty [simp]: "child (Trie []) k = None"
  by (simp add: child_def)

lemma child_insert:
  "child (insert_version (n # ns) t) k =
     (if k = n then Some (insert_version ns (case child t n of None \<Rightarrow> Trie [] | Some s \<Rightarrow> s))
      else child t k)"
  by (cases t) (auto simp: child_def update_conv' map_add_def split: option.splits)

lemma has_path_Nil [simp]: "has_path t []"
  by (simp add: has_path_def)

lemma has_path_Cons:
  "has_path t (k # ks) = (case child t k of None \<Rightarrow> False | Some s \<Rightarrow> has_path s ks)"
  by (simp add: has_path_def split: option.splits)

lemma has_path_empty [simp]: "has_path (Trie []) p = (p = [])"
  by (cases p) (simp_all add: has_path_Cons)

lemma has_path_insert: "has_path (insert_version l t) p = (has_path t p \<or> prefix p l)"
proof (induction l arbitrary: t p)
  case Nil
  then show ?case by (cases p) auto
next
  case (Cons n ns)
  show ?case
  proof (cases p)
    case Nil
    then show ?thesis by simp
  next
    case (Cons k ks)
    then show ?thesis
      using Cons.IH
      by (auto simp: has_path_Cons child_insert simp del: insert_version.simps split: option.splits)
  qed
qed

lemma has_path_foldl:
  "has_path (foldl (\<lambda>versions version_num.
              case tag_version version_num of
                None \<Rightarrow> versions
              | Some version_split \<Rightarrow> insert_version version_split versions) t tags) p
   = (has_path t p \<or> (\<exists>l \<in> set (parsed_versions tags). prefix p l))"
proof (induction tags arbitrary: t)
  case Nil
  then show ?case by (simp add: parsed_versions_def map_filter_simps)
next
  case (Cons a tags)
  then show ?case
    by (cases "tag_version a") (auto simp: parsed_versions_def map_filter_simps has_path_insert)
qed

lemma has_path_build:
  "has_path (build_versions tags) p = (p = [] \<or> (\<exists>l \<in> set (parsed_versions tags). prefix p l))"
  by (simp add: build_versions_def has_path_foldl)

lemma subtrie_append:
  "subtrie t (p @ q) = (case subtrie t p of None \<Rightarrow> None | Some s \<Rightarrow> subtrie s q)"
  by (induction p arbitrary: t) (auto split: option.splits)

lemma leaf_is_version:
  assumes "ends_at_leaf (build_versions tags) g" and "g \<noteq> []"
  shows "g \<in> set (parsed_versions tags)"
proof -
  from assms(1) obtain s where s: "subtrie (build_versions tags) g = Some s" "keys s = []"
    by (auto simp: ends_at_leaf_def split: option.splits)
  then have "has_path (build_versions tags) g" by (simp add: has_path_def)
  with assms(2) obtain l where l: "l \<in> set (parsed_versions tags)" "prefix g l"
    by (auto simp: has_path_build)
  then obtain r where r: "l = g @ r" by (auto simp: prefix_def)
  have "r = []"
  proof (cases r)
    case Nil
    then show ?thesis .
  next
    case (Cons k r')
    have "prefix (g @ [k]) (g @ k # r')" by (simp add: prefix_def)
    with l r Cons have "has_path (build_versions tags) (g @ [k])"
      unfolding has_path_build by blast
    with s have "child s k \<noteq> None"
      by (auto simp: has_path_def subtrie_append split: option.splits)
    with s(2) show ?thesis using child_keys [of s k] by simp
  qed
  with l r show ?thesis by simp
qed

lemma version_has_path:
  "l \<in> set (parsed_versions tags) \<Longrightarrow> has_path (build_versions tags) l"
  by (auto simp: has_path_build)


subsection \<open>The two loops choose the greatest consistent path\<close>

definition dotted :: "int list \<Rightarrow> string" where
  "dotted ds = concat (map (\<lambda>d. ''.'' @ fmt_d d) ds)"

lemma dotted_simps [simp]: "dotted [] = []" "dotted (d # ds) = ''.'' @ fmt_d d @ dotted ds"
  by (simp_all add: dotted_def)

lemma join_dot: "join ''.'' (x # xs) = x @ concat (map (\<lambda>y. ''.'' @ y) xs)"
  by (induction xs arbitrary: x) auto

lemma format_version_Cons: "format_version (d # ds) = ''v'' @ fmt_d d @ dotted ds"
  by (simp add: format_version_def join_dot dotted_def comp_def)

lemma max_key_in: "keys t \<noteq> [] \<Longrightarrow> max_key t \<in> set (keys t)"
  unfolding max_key_def by (rule Max_in) auto

lemma max_key_ge: "k \<in> set (keys t) \<Longrightarrow> k \<le> max_key t"
  unfolding max_key_def by (rule Max_ge) auto

lemma ends_at_leaf_Cons:
  "ends_at_leaf t (k # ks) = (case child t k of None \<Rightarrow> False | Some s \<Rightarrow> ends_at_leaf s ks)"
  by (simp add: ends_at_leaf_def split: option.splits)

lemma fork_descent_greatest:
  "\<exists>fs. fork_descent cur v = v @ dotted fs \<and> ends_at_leaf cur fs
        \<and> (\<forall>l. has_path cur l \<longrightarrow> l \<le> fs)"
proof (induction cur v rule: fork_descent.induct)
  case (1 current version_to_use)
  show ?case
  proof (cases "keys current = []")
    case True
    have "l = []" if "has_path current l" for l
    proof (cases l)
      case (Cons k ks)
      with that True show ?thesis
        using child_keys [of current k] by (auto simp: has_path_Cons split: option.splits)
    qed simp
    with True show ?thesis
      by (intro exI [of _ "[]"]) (auto simp: fork_descent.simps [of current] ends_at_leaf_def)
  next
    case False
    let ?m = "max_key current"
    from False have "child current ?m \<noteq> None"
      using max_key_in [of current] child_keys [of current ?m] by simp
    then obtain sub where sub: "child current ?m = Some sub" by auto
    from "1.IH" [OF False sub] obtain fs where fs:
      "fork_descent sub (version_to_use @ ''.'' @ fmt_d ?m) = (version_to_use @ ''.'' @ fmt_d ?m) @ dotted fs"
      "ends_at_leaf sub fs" "\<forall>l. has_path sub l \<longrightarrow> l \<le> fs"
      by blast
    have "l \<le> ?m # fs" if "has_path current l" for l
    proof (cases l)
      case (Cons k ks)
      with that obtain s where s: "child current k = Some s" "has_path s ks"
        by (auto simp: has_path_Cons split: option.splits)
      then have "k \<le> ?m" using child_keys [of current k] max_key_ge [of k current] by simp
      with s sub fs(3) Cons show ?thesis by auto
    qed simp
    with False sub fs(1,2) show ?thesis
      by (intro exI [of _ "?m # fs"]) (simp add: fork_descent.simps [of current] ends_at_leaf_Cons)
  qed
qed

lemma greedy_greatest:
  "match_segments msg segs cur vtu = Inr (cur', Some v') \<Longrightarrow>
   \<exists>g. fork_descent cur' v' = (case vtu of None \<Rightarrow> format_version g | Some v \<Rightarrow> v @ dotted g)
     \<and> ends_at_leaf cur g \<and> consistent segs g
     \<and> (\<forall>l. has_path cur l \<longrightarrow> consistent segs l \<longrightarrow> l \<le> g)
     \<and> (vtu = None \<longrightarrow> g \<noteq> [])"
proof (induction segs arbitrary: cur vtu)
  case Nil
  then have eq: "cur' = cur" "vtu = Some v'" by simp_all
  from fork_descent_greatest [of cur v'] eq show ?case by auto
next
  case (Cons seg segs)
  from Cons.prems obtain d sub where
    d: "(if seg = ''x'' then Some (max_key cur) else py_int seg) = Some d"
    and nonempty: "\<not> (seg = ''x'' \<and> keys cur = [])"
    and sub: "child cur d = Some sub"
    and rest: "match_segments msg segs sub (Some (add_digit vtu d)) = Inr (cur', Some v')"
    by (auto split: if_splits option.splits)
  from Cons.IH [OF rest] obtain g where g:
    "fork_descent cur' v' = add_digit vtu d @ dotted g"
    "ends_at_leaf sub g" "consistent segs g"
    "\<forall>l. has_path sub l \<longrightarrow> consistent segs l \<longrightarrow> l \<le> g"
    by auto
  have out: "fork_descent cur' v' = (case vtu of None \<Rightarrow> format_version (d # g) | Some v \<Rightarrow> v @ dotted (d # g))"
    using g(1) by (simp add: add_digit_def format_version_Cons split: option.splits)
  have cons: "consistent (seg # segs) (d # g)"
    using d g(3) by (auto split: if_splits)
  have "l \<le> d # g" if l: "has_path cur l" "consistent (seg # segs) l" for l
  proof (cases l)
    case Nil
    then show ?thesis by simp
  next
    case (Cons k ks)
    with l obtain s where s: "child cur k = Some s" "has_path s ks"
      by (auto simp: has_path_Cons split: option.splits)
    from l(2) Cons have ks: "consistent segs ks" and k: "seg = ''x'' \<or> py_int seg = Some k"
      by simp_all
    have "k \<le> d"
    proof (cases "seg = ''x''")
      case True
      with d have "d = max_key cur" by simp
      with s(1) show ?thesis using child_keys [of cur k] max_key_ge [of k cur] by simp
    next
      case False
      with d k show ?thesis by simp
    qed
    with s sub g(4) ks Cons show ?thesis by auto
  qed
  with out cons sub g(2) show ?case
    by (intro exI [of _ "d # g"]) (simp add: ends_at_leaf_Cons)
qed


text \<open>
  A pattern is accepted when neither of the two checks raises. Its wildcards come last
  when no segment other than a wildcard follows the first wildcard.
\<close>

definition pattern_accepted :: "string \<Rightarrow> bool" where
  "pattern_accepted pattern =
     (re_match_anchored grammar_rx pattern
      \<and> \<not> (''x'' \<in> set (findall_segments pattern) \<and> re_match_anchored digit_after_x_rx pattern))"

definition wildcards_last :: "string list \<Rightarrow> bool" where
  "wildcards_last segs = list_all (\<lambda>s. s = ''x'') (dropWhile (\<lambda>s. s \<noteq> ''x'') segs)"

text \<open>A trie is deep to \<open>n\<close> when none of its paths ends at a leaf before \<open>n\<close> keys.\<close>

definition deep :: "nat \<Rightarrow> trie \<Rightarrow> bool" where
  "deep n t = (\<forall>p. ends_at_leaf t p \<longrightarrow> n \<le> length p)"

lemma latest_is_greatest:
  assumes "find_latest_tag_by_pattern name tags pattern = Inr r"
  shows "\<exists>g \<in> set (parsed_versions tags). r = format_version g
           \<and> consistent (findall_segments pattern) g
           \<and> (\<forall>l \<in> set (parsed_versions tags). consistent (findall_segments pattern) l \<longrightarrow> l \<le> g)"
proof -
  let ?t = "build_versions tags"
  from assms obtain cur v where
    m: "match_segments (no_match_message name pattern tags) (findall_segments pattern) ?t None
          = Inr (cur, Some v)"
    and r: "r = fork_descent cur v"
    by (auto simp: find_latest_tag_by_pattern_def Let_def split: if_splits sum.splits option.splits)
  from greedy_greatest [OF m] obtain g where g:
    "fork_descent cur v = format_version g" "ends_at_leaf ?t g"
    "consistent (findall_segments pattern) g"
    "\<forall>l. has_path ?t l \<longrightarrow> consistent (findall_segments pattern) l \<longrightarrow> l \<le> g" "g \<noteq> []"
    by auto
  from g(2,5) have "g \<in> set (parsed_versions tags)" by (rule leaf_is_version)
  with g r show ?thesis by (auto dest: version_has_path)
qed

lemma parsed_versions_iff:
  "l \<in> set (parsed_versions tags) = (\<exists>t \<in> set tags. tag_version t = Some l)"
  by (force simp: parsed_versions_def map_filter_def)

lemma tag_version_length: "tag_version t = Some l \<Longrightarrow> 3 \<le> length l"
  by (auto simp: tag_version_def Let_def split: if_splits)

lemma deep_build:
  assumes "parsed_versions tags \<noteq> []"
  shows "deep 3 (build_versions tags)"
  unfolding deep_def
proof (intro allI impI)
  fix p assume leaf: "ends_at_leaf (build_versions tags) p"
  show "3 \<le> length p"
  proof (cases "p = []")
    case False
    with leaf have "p \<in> set (parsed_versions tags)" by (rule leaf_is_version)
    then show ?thesis by (auto simp: parsed_versions_iff dest: tag_version_length)
  next
    case True
    with leaf have empty: "keys (build_versions tags) = []" by (simp add: ends_at_leaf_def)
    from assms obtain l where l: "l \<in> set (parsed_versions tags)" by (cases "parsed_versions tags") auto
    then have "3 \<le> length l" by (auto simp: parsed_versions_iff dest: tag_version_length)
    then obtain k ks where "l = k # ks" by (cases l) auto
    with l have "has_path (build_versions tags) (k # ks)" by (auto dest: version_has_path)
    then have "child (build_versions tags) k \<noteq> None" by (auto simp: has_path_Cons split: option.splits)
    with empty show ?thesis using child_keys [of "build_versions tags" k] by simp
  qed
qed

lemma deep_child: "deep (Suc n) t \<Longrightarrow> child t k = Some s \<Longrightarrow> deep n s"
  unfolding deep_def
proof (intro allI impI)
  fix p assume a: "\<forall>p. ends_at_leaf t p \<longrightarrow> Suc n \<le> length p" "child t k = Some s" "ends_at_leaf s p"
  then have "ends_at_leaf t (k # p)" by (simp add: ends_at_leaf_Cons)
  with a(1) have "Suc n \<le> length (k # p)" by blast
  then show "n \<le> length p" by simp
qed

lemma deep_keys: "deep (Suc n) t \<Longrightarrow> keys t \<noteq> []"
  unfolding deep_def ends_at_leaf_def by (auto dest: spec [of _ "[]"])

lemma deep_mono: "deep n t \<Longrightarrow> m \<le> n \<Longrightarrow> deep m t"
  unfolding deep_def by (meson le_trans)

lemma match_errors:
  "match_segments msg segs cur vtu = Inl e \<Longrightarrow> e = PyValueError \<or> e = NoMatchingVersion msg"
  by (induction segs arbitrary: cur vtu) (auto split: if_splits option.splits)

lemma match_no_value_error:
  "deep (length segs) cur \<Longrightarrow> \<forall>seg \<in> set segs. seg = ''x'' \<or> py_int seg \<noteq> None
   \<Longrightarrow> match_segments msg segs cur vtu \<noteq> Inl PyValueError"
proof (induction segs arbitrary: cur vtu)
  case Nil
  then show ?case by simp
next
  case (Cons seg segs)
  from Cons.prems(1) have k: "keys cur \<noteq> []" by (auto dest: deep_keys)
  from Cons.prems(2) have "(if seg = ''x'' then Some (max_key cur) else py_int seg) \<noteq> None"
    by auto
  then obtain d where d: "(if seg = ''x'' then Some (max_key cur) else py_int seg) = Some d"
    by blast
  show ?case
  proof (cases "child cur d")
    case None
    with k d show ?thesis by (simp split: if_splits)
  next
    case (Some sub)
    with Cons.prems(1) have "deep (length segs) sub" by (auto dest: deep_child)
    with Cons.IH [of sub] Cons.prems(2) have "match_segments msg segs sub (Some (add_digit vtu d)) \<noteq> Inl PyValueError"
      by simp
    with k d Some show ?thesis by (simp split: if_splits)
  qed
qed

lemma match_some:
  "match_segments msg segs cur (Some s) = Inr (c, v) \<Longrightarrow> v \<noteq> None"
  by (induction segs arbitrary: cur s) (auto split: if_splits option.splits)

lemma match_started:
  "match_segments msg segs cur vtu = Inr (c, v) \<Longrightarrow> segs \<noteq> [] \<Longrightarrow> v \<noteq> None"
  by (cases segs) (auto split: if_splits option.splits dest: match_some)

lemma match_all_wildcards:
  "deep (length segs) cur \<Longrightarrow> list_all (\<lambda>s. s = ''x'') segs
   \<Longrightarrow> \<exists>c v. match_segments msg segs cur vtu = Inr (c, v)"
proof (induction segs arbitrary: cur vtu)
  case Nil
  then show ?case by simp
next
  case (Cons seg segs)
  from Cons.prems(1) have k: "keys cur \<noteq> []" by (auto dest: deep_keys)
  then have "child cur (max_key cur) \<noteq> None"
    using max_key_in [of cur] child_keys [of cur "max_key cur"] by simp
  then obtain sub where sub: "child cur (max_key cur) = Some sub" by auto
  with Cons.prems(1) have "deep (length segs) sub" by (auto dest: deep_child)
  with Cons.IH [of sub "Some (add_digit vtu (max_key cur))"] Cons.prems(2) obtain c v where
    "match_segments msg segs sub (Some (add_digit vtu (max_key cur))) = Inr (c, v)"
    by auto
  with k sub Cons.prems(2) show ?case by simp
qed

lemma match_total:
  "deep (length segs) cur \<Longrightarrow> wildcards_last segs \<Longrightarrow> has_path cur l \<Longrightarrow> consistent segs l
   \<Longrightarrow> \<exists>c v. match_segments msg segs cur vtu = Inr (c, v)"
proof (induction segs arbitrary: cur vtu l)
  case Nil
  then show ?case by simp
next
  case (Cons seg segs)
  show ?case
  proof (cases "seg = ''x''")
    case True
    with Cons.prems(2) have "list_all (\<lambda>s. s = ''x'') (seg # segs)"
      by (simp add: wildcards_last_def)
    with Cons.prems(1) show ?thesis by (rule match_all_wildcards)
  next
    case False
    from Cons.prems(4) obtain k ks where l: "l = k # ks" by (cases l) auto
    with Cons.prems(4) False have seg: "py_int seg = Some k" and ks: "consistent segs ks" by auto
    from Cons.prems(3) l obtain sub where sub: "child cur k = Some sub" "has_path sub ks"
      by (auto simp: has_path_Cons split: option.splits)
    from Cons.prems(1) sub have d: "deep (length segs) sub" by (auto dest: deep_child)
    from Cons.prems(2) False have w: "wildcards_last segs" by (simp add: wildcards_last_def)
    from Cons.IH [OF d w sub(2) ks] obtain c v where
      "match_segments msg segs sub (Some (add_digit vtu k)) = Inr (c, v)" by blast
    with False seg sub show ?thesis by simp
  qed
qed


subsection \<open>An accepted pattern has a segment, and its segments are wildcards or numbers\<close>

text \<open>An expression is dead when no string matches it for a syntactic reason.\<close>

fun dead :: "rx \<Rightarrow> bool" where
  "dead Never = True"
| "dead (Alt r s) = (dead r \<and> dead s)"
| "dead (Seq r s) = (dead r \<or> dead s)"
| "dead r = False"

lemma dead_not_nullable: "dead r \<Longrightarrow> \<not> nullable r"
  by (induction r) auto

lemma dead_deriv: "dead r \<Longrightarrow> dead (deriv c r)"
  by (induction r) (auto dest: dead_not_nullable)

lemma dead_foldl: "dead r \<Longrightarrow> dead (foldl (\<lambda>r c. deriv c r) r s)"
  by (induction s arbitrary: r) (auto dest: dead_deriv)

lemma dead_no_match: "dead r \<Longrightarrow> \<not> rx_matches r s"
  unfolding rx_matches_def by (auto dest: dead_foldl dead_not_nullable)

lemma grammar_head:
  assumes "rx_matches grammar_rx p"
  shows "\<exists>c rest. p = CHR ''v'' # c # rest \<and> (is_digit c \<or> c = CHR ''x'')"
proof (cases p)
  case Nil
  with assms show ?thesis
    by (simp add: rx_matches_def grammar_rx_def chr_rx_def)
next
  case p: (Cons a q)
  have a: "a = CHR ''v''"
  proof (rule ccontr)
    assume "a \<noteq> CHR ''v''"
    then have "dead (deriv a grammar_rx)" by (simp add: grammar_rx_def chr_rx_def)
    then have "\<not> rx_matches (deriv a grammar_rx) q" by (rule dead_no_match)
    with assms p show False by (simp add: rx_matches_def)
  qed
  show ?thesis
  proof (cases q)
    case Nil
    with assms p a show ?thesis
      by (simp add: rx_matches_def grammar_rx_def chr_rx_def segment_rx_def plus_rx_def)
  next
    case (Cons c rest)
    have "is_digit c \<or> c = CHR ''x''"
    proof (rule ccontr)
      assume "\<not> (is_digit c \<or> c = CHR ''x'')"
      then have "dead (deriv c (deriv a grammar_rx))"
        using a by (simp add: grammar_rx_def chr_rx_def segment_rx_def plus_rx_def)
      then have "\<not> rx_matches (deriv c (deriv a grammar_rx)) rest" by (rule dead_no_match)
      with assms p Cons show False by (simp add: rx_matches_def)
    qed
    with p a Cons show ?thesis by simp
  qed
qed

lemma accepted_has_segment:
  assumes "re_match_anchored grammar_rx p"
  shows "findall_segments p \<noteq> []"
proof -
  from assms have "\<exists>c rest. p = CHR ''v'' # c # rest \<and> (is_digit c \<or> c = CHR ''x'')"
  proof (unfold re_match_anchored_def, elim disjE conjE)
    assume "rx_matches grammar_rx p"
    then show ?thesis by (rule grammar_head)
  next
    assume n: "p \<noteq> []" and m: "rx_matches grammar_rx (butlast p)"
    from grammar_head [OF m] obtain c rest where "butlast p = CHR ''v'' # c # rest"
      and c: "is_digit c \<or> c = CHR ''x''" by blast
    with n have "p = CHR ''v'' # c # (rest @ [last p])"
      by (metis append_Cons append_butlast_last_id)
    with c show ?thesis by blast
  qed
  then obtain c rest where "p = CHR ''v'' # c # rest" "is_digit c \<or> c = CHR ''x''" by blast
  then show ?thesis by (auto simp: is_digit_def findall_segments.simps)
qed

lemma digit_not_space: "is_digit c \<Longrightarrow> \<not> is_space c"
  by (auto simp: is_digit_def is_space_def)

lemma py_int_digits:
  assumes "ds \<noteq> []" and "list_all is_digit ds"
  shows "py_int ds = Some (int (digits_val ds))"
proof -
  from assms have h: "is_digit (hd ds)" by (auto simp: list_all_iff)
  from assms(1) h have 1: "dropWhile is_space ds = ds"
    by (cases ds) (auto dest: digit_not_space)
  from assms(1) h have 2: "take 1 ds \<noteq> ''-''" "take 1 ds \<noteq> ''+''"
    by (cases ds; auto simp: is_digit_def)+
  from assms(2) have 3: "takeWhile is_digit ds = ds" "dropWhile is_digit ds = []"
    by (simp_all add: list_all_iff)
  show ?thesis using assms(1) 2 by (simp add: py_int_def 1 3 Let_def)
qed

lemma findall_segments_valid:
  "seg \<in> set (findall_segments s) \<Longrightarrow> seg = ''x'' \<or> py_int seg \<noteq> None"
proof (induction s rule: findall_segments.induct)
  case 1
  then show ?case by (simp add: findall_segments.simps)
next
  case (2 c cs)
  show ?case
  proof (cases "is_digit c")
    case True
    with 2 show ?thesis
      using py_int_digits [of "c # takeWhile is_digit cs"]
      by (auto simp: list_all_iff findall_segments.simps dest: set_takeWhileD)
  next
    case False
    with 2 show ?thesis by (auto simp: findall_segments.simps split: if_splits)
  qed
qed


subsection \<open>Tags as the specification reads them\<close>

text \<open>
  The specification's version tag is the letter \<^verbatim>\<open>v\<close> followed by three or more
  integers with dots between them, an integer being one or more decimal digits and
  nothing else. \<open>spec_int\<close> and \<open>spec_tag_version\<close> follow these words. The code's
  \<open>tag_version\<close> cuts the first character off whatever it is and reads each number with
  \<^verbatim>\<open>int\<close>, which also takes blanks around a number and a sign before it.
\<close>

definition spec_int :: "string \<Rightarrow> int option" where
  "spec_int s = (if s \<noteq> [] \<and> list_all is_digit s then Some (int (digits_val s)) else None)"

definition spec_tag_version :: "string \<Rightarrow> int list option" where
  "spec_tag_version tag =
     (case tag of
        [] \<Rightarrow> None
      | c # rest \<Rightarrow>
          if c \<noteq> CHR ''v'' then None
          else
            let parts = map spec_int (split_on CHR ''.'' rest)
            in if list_all (\<lambda>p. p \<noteq> None) parts \<and> 3 \<le> length parts
               then Some (map the parts) else None)"





lemma split_on_chars: "s \<in> set (split_on c xs) \<Longrightarrow> set s \<subseteq> set xs"
proof (induction xs arbitrary: s)
  case Nil
  then show ?case by simp
next
  case (Cons x xs)
  then show ?case
    by (cases "split_on c xs") (force split: if_splits)+
qed

lemma py_int_plain:
  assumes "py_int s = Some k" and "\<forall>c \<in> set s. \<not> is_space c \<and> c \<noteq> CHR ''+'' \<and> c \<noteq> CHR ''-''"
  shows "spec_int s = Some k"
proof -
  from assms(2) have 1: "dropWhile is_space s = s"
    by (cases s) auto
  from assms(2) have 2: "take 1 s \<noteq> ''-''" "take 1 s \<noteq> ''+''"
    by (cases s; auto)+
  let ?ds = "takeWhile is_digit s" and ?rest = "dropWhile is_digit s"
  from assms(1) 1 2 have ds: "?ds \<noteq> []" and rest: "list_all is_space ?rest"
    and k: "k = int (digits_val ?ds)"
    by (auto simp: py_int_def Let_def split: if_splits)
  have "?rest = []"
  proof (rule ccontr)
    assume "?rest \<noteq> []"
    then obtain c where "c \<in> set ?rest" by (cases ?rest) auto
    with rest have "is_space c" "c \<in> set s" by (auto simp: list_all_iff dest: set_dropWhileD)
    with assms(2) show False by blast
  qed
  then have "?ds = s" by (metis append_Nil2 takeWhile_dropWhile_id)
  with ds k show ?thesis
    by (auto simp: spec_int_def list_all_iff dest: set_takeWhileD)
 qed

text \<open>
  A tag that the code reads as a version and that is not of the form has another first
  character than \<^verbatim>\<open>v\<close>, or holds a blank or a sign.
\<close>

lemma tag_version_lax:
  assumes "tag_version t = Some l" and "spec_tag_version t = None"
  shows "take 1 t \<noteq> ''v'' \<or> (\<exists>c \<in> set t. is_space c \<or> c = CHR ''+'' \<or> c = CHR ''-'')"
proof (rule ccontr)
  assume n: "\<not> ?thesis"
  then obtain rest where t: "t = CHR ''v'' # rest" by (cases t) auto
  let ?ps = "split_on CHR ''.'' rest"
  from n t have plain: "\<forall>c \<in> set rest. \<not> is_space c \<and> c \<noteq> CHR ''+'' \<and> c \<noteq> CHR ''-''" by auto
  from assms(1) t have ex: "\<not> list_ex (\<lambda>p. p = None) (map py_int ?ps)" and len: "3 \<le> length ?ps"
    by (auto simp: tag_version_def Let_def split: if_splits)
  from ex have all: "\<forall>s \<in> set ?ps. py_int s \<noteq> None"
    unfolding list_ex_iff by force
  have "spec_int s \<noteq> None" if "s \<in> set ?ps" for s
  proof -
    from all that obtain k where k: "py_int s = Some k" by auto
    from that plain have "\<forall>c \<in> set s. \<not> is_space c \<and> c \<noteq> CHR ''+'' \<and> c \<noteq> CHR ''-''"
      using split_on_chars [of s "CHR ''.''" rest] by blast
    with k have "spec_int s = Some k" by (rule py_int_plain)
    then show ?thesis by simp
  qed
  with len t have "spec_tag_version t \<noteq> None"
    by (auto simp: spec_tag_version_def Let_def list_all_iff)
  with assms(2) show False by simp
qed

text \<open>
  A segment of a pattern that is not the wildcard is a run of decimal digits, so the
  number that \<open>consistent\<close> reads there with \<^verbatim>\<open>int\<close> is the number written.
\<close>

lemma findall_segments_digits:
  "seg \<in> set (findall_segments s) \<Longrightarrow> seg = ''x'' \<or> seg \<noteq> [] \<and> list_all is_digit seg"
proof (induction s rule: findall_segments.induct)
  case 1
  then show ?case by (simp add: findall_segments.simps)
next
  case (2 c cs)
  show ?case
  proof (cases "is_digit c")
    case True
    with 2 show ?thesis
      by (auto simp: list_all_iff findall_segments.simps dest: set_takeWhileD)
  next
    case False
    with 2 show ?thesis by (auto simp: findall_segments.simps split: if_splits)
  qed
qed

lemma segment_number:
  assumes "seg \<in> set (findall_segments s)"
  shows "seg = ''x'' \<or> py_int seg = spec_int seg \<and> spec_int seg \<noteq> None"
proof (cases "seg = ''x''")
  case True
  then show ?thesis by simp
next
  case False
  with findall_segments_digits [OF assms] have d: "seg \<noteq> []" "list_all is_digit seg" by simp_all
  then have "py_int seg = Some (int (digits_val seg))" by (rule py_int_digits)
  with d show ?thesis by (simp add: spec_int_def)
qed



subsection \<open>The matcher as a whole\<close>






lemma latest_total:
  assumes acc: "pattern_accepted pattern"
    and len: "length (findall_segments pattern) \<le> 3"
    and shape: "wildcards_last (findall_segments pattern)"
    and l: "l \<in> set (parsed_versions tags)" "consistent (findall_segments pattern) l"
  shows "\<exists>r. find_latest_tag_by_pattern name tags pattern = Inr r"
proof -
  let ?t = "build_versions tags" and ?segs = "findall_segments pattern"
  from l(1) have "parsed_versions tags \<noteq> []" by auto
  then have "deep 3 ?t" by (rule deep_build)
  then have "deep (length ?segs) ?t" using len by (rule deep_mono)
  from match_total [OF this shape version_has_path [OF l(1)] l(2)]
  obtain c v where m: "match_segments (no_match_message name pattern tags) ?segs ?t None = Inr (c, v)"
    by blast
  from acc have "?segs \<noteq> []" by (auto simp: pattern_accepted_def dest: accepted_has_segment)
  with m have "v \<noteq> None" by (rule match_started)
  with m acc show ?thesis
    by (auto simp: find_latest_tag_by_pattern_def pattern_accepted_def)
qed

lemma latest_no_match:
  assumes acc: "pattern_accepted pattern"
    and len: "length (findall_segments pattern) \<le> 3"
    and hd: "hd (findall_segments pattern) \<noteq> ''x''"
    and none: "\<forall>l \<in> set (parsed_versions tags). \<not> consistent (findall_segments pattern) l"
  shows "find_latest_tag_by_pattern name tags pattern
           = Inl (NoMatchingVersion (no_match_message name pattern tags))"
proof -
  let ?t = "build_versions tags" and ?segs = "findall_segments pattern"
  let ?msg = "no_match_message name pattern tags"
  from acc have ne: "?segs \<noteq> []" by (auto simp: pattern_accepted_def dest: accepted_has_segment)
  have valid: "\<forall>seg \<in> set ?segs. seg = ''x'' \<or> py_int seg \<noteq> None"
    by (auto dest: findall_segments_valid)
  have nv: "match_segments ?msg ?segs ?t None \<noteq> Inl PyValueError"
  proof (cases "parsed_versions tags = []")
    case False
    then have "deep 3 ?t" by (rule deep_build)
    then have "deep (length ?segs) ?t" using len by (rule deep_mono)
    then show ?thesis using valid by (rule match_no_value_error)
  next
    case True
    from ne obtain seg segs where segs: "?segs = seg # segs" by (cases ?segs) auto
    with hd valid obtain d where d: "seg \<noteq> ''x''" "py_int seg = Some d" by auto
    have "child ?t d = None"
    proof (rule ccontr)
      assume "child ?t d \<noteq> None"
      then have "has_path ?t [d]" by (auto simp: has_path_Cons)
      with True show False by (simp add: has_path_build)
    qed
    with segs d show ?thesis by simp
  qed
  show ?thesis
  proof (cases "find_latest_tag_by_pattern name tags pattern")
    case (Inr r)
    from latest_is_greatest [OF this] none show ?thesis by blast
  next
    case (Inl e)
    show ?thesis
    proof (cases "match_segments ?msg ?segs ?t None")
      case m: (Inl e')
      with nv have "e' = NoMatchingVersion ?msg" by (auto dest: match_errors)
      with m acc show ?thesis
        by (auto simp: find_latest_tag_by_pattern_def pattern_accepted_def)
    next
      case m: (Inr cv)
      obtain c v where cv: "cv = (c, v)" by (cases cv)
      with m ne have "v \<noteq> None" by (auto dest: match_started)
      with m cv acc Inl show ?thesis
        by (auto simp: find_latest_tag_by_pattern_def pattern_accepted_def)
    qed
  qed
qed

lemma match_concrete:
  "''x'' \<notin> set segs \<Longrightarrow> has_path cur l \<Longrightarrow> consistent segs l
   \<Longrightarrow> \<exists>c v. match_segments msg segs cur vtu = Inr (c, v)"
proof (induction segs arbitrary: cur vtu l)
  case Nil
  then show ?case by simp
next
  case (Cons seg segs)
  from Cons.prems(3) obtain k ks where l: "l = k # ks" by (cases l) auto
  with Cons.prems(1,3) have seg: "seg \<noteq> ''x''" "py_int seg = Some k" and ks: "consistent segs ks"
    by auto
  from Cons.prems(2) l obtain sub where sub: "child cur k = Some sub" "has_path sub ks"
    by (auto simp: has_path_Cons split: option.splits)
  from Cons.prems(1) have "''x'' \<notin> set segs" by simp
  from Cons.IH [OF this sub(2) ks] obtain c v where
    "match_segments msg segs sub (Some (add_digit vtu k)) = Inr (c, v)" by blast
  with seg sub show ?case by simp
qed


lemma latest_total_concrete:
  assumes acc: "pattern_accepted pattern"
    and shape: "''x'' \<notin> set (findall_segments pattern)"
    and l: "l \<in> set (parsed_versions tags)" "consistent (findall_segments pattern) l"
  shows "\<exists>r. find_latest_tag_by_pattern name tags pattern = Inr r"
proof -
  let ?t = "build_versions tags" and ?segs = "findall_segments pattern"
  from match_concrete [OF shape version_has_path [OF l(1)] l(2)]
  obtain c v where m: "match_segments (no_match_message name pattern tags) ?segs ?t None = Inr (c, v)"
    by blast
  from acc have "?segs \<noteq> []" by (auto simp: pattern_accepted_def dest: accepted_has_segment)
  with m have "v \<noteq> None" by (rule match_started)
  with m acc show ?thesis
    by (auto simp: find_latest_tag_by_pattern_def pattern_accepted_def)
qed


subsection \<open>A single wildcard at the end\<close>



subsection \<open>When a number of the pattern is missing at its level\<close>





subsection \<open>The text of the message\<close>




section \<open>Claims about the version pattern matcher\<close>




subsection \<open>The tag set of the specification's example\<close>

lemma latest_unique:
  assumes acc: "pattern_accepted pattern"
    and len: "length (findall_segments pattern) \<le> 3"
    and shape: "wildcards_last (findall_segments pattern)"
    and g: "g \<in> set (parsed_versions tags)" "consistent (findall_segments pattern) g"
    and top: "\<forall>l \<in> set (parsed_versions tags). consistent (findall_segments pattern) l \<longrightarrow> l \<le> g"
  shows "find_latest_tag_by_pattern name tags pattern = Inr (format_version g)"
proof -
  from latest_total [OF acc len shape g] obtain r where
    r: "find_latest_tag_by_pattern name tags pattern = Inr r" by blast
  from latest_is_greatest [OF r] obtain g' where g':
    "g' \<in> set (parsed_versions tags)" "r = format_version g'"
    "consistent (findall_segments pattern) g'"
    "\<forall>l \<in> set (parsed_versions tags). consistent (findall_segments pattern) l \<longrightarrow> l \<le> g'"
    by blast
  from g g'(4) have "g \<le> g'" by blast
  moreover from g'(1,3) top have "g' \<le> g" by blast
  ultimately have "g' = g" by simp
  with r g'(2) show ?thesis by simp
qed

lemma example_tags:
  "tag_version ''v1.2.1'' = Some [1, 2, 1]"
  "tag_version ''v1.2.3'' = Some [1, 2, 3]"
  "tag_version ''v1.2.3.2'' = Some [1, 2, 3, 2]"
  "tag_version ''v1.4.1'' = Some [1, 4, 1]"
  "tag_version ''v1.4.2.1'' = Some [1, 4, 2, 1]"
  "tag_version ''v1.4.2.2'' = Some [1, 4, 2, 2]"
  by code_simp+

lemma example_versions:
  assumes "set tags = {''v1.2.1'', ''v1.2.3'', ''v1.2.3.2'', ''v1.4.1'', ''v1.4.2.1'', ''v1.4.2.2''}"
  shows "set (parsed_versions tags)
           = {[1, 2, 1], [1, 2, 3], [1, 2, 3, 2], [1, 4, 1], [1, 4, 2, 1], [1, 4, 2, 2]}"
proof -
  have "set (parsed_versions tags) = {l. \<exists>t \<in> set tags. tag_version t = Some l}"
    by (auto simp: parsed_versions_iff)
  also have "\<dots> = {l. \<exists>t \<in> {''v1.2.1'', ''v1.2.3'', ''v1.2.3.2'', ''v1.4.1'', ''v1.4.2.1'', ''v1.4.2.2''}.
                      tag_version t = Some l}"
    by (simp only: assms)
  also have "\<dots> = {[1, 2, 1], [1, 2, 3], [1, 2, 3, 2], [1, 4, 1], [1, 4, 2, 1], [1, 4, 2, 2]}"
    by (simp only: bex_simps example_tags option.inject) blast
  finally show ?thesis .
qed

lemma example_patterns:
  "pattern_accepted ''v1.x.x''" "findall_segments ''v1.x.x'' = [''1'', ''x'', ''x'']"
  "pattern_accepted ''v1.2.x''" "findall_segments ''v1.2.x'' = [''1'', ''2'', ''x'']"
  "pattern_accepted ''v1.2.3''" "findall_segments ''v1.2.3'' = [''1'', ''2'', ''3'']"
  "pattern_accepted ''v9.0.0''" "findall_segments ''v9.0.0'' = [''9'', ''0'', ''0'']"
  "py_int ''0'' = Some 0" "py_int ''1'' = Some 1" "py_int ''2'' = Some 2"
  "py_int ''3'' = Some 3" "py_int ''9'' = Some 9"
  "format_version [1, 4, 2, 2] = ''v1.4.2.2''" "format_version [1, 2, 3, 2] = ''v1.2.3.2''"
  by code_simp+


text \<open>
  Claim C2. Whatever list holds exactly the six tags \<^verbatim>\<open>v1.2.1\<close>, \<^verbatim>\<open>v1.2.3\<close>,
  \<^verbatim>\<open>v1.2.3.2\<close>, \<^verbatim>\<open>v1.4.1\<close>, \<^verbatim>\<open>v1.4.2.1\<close> and \<^verbatim>\<open>v1.4.2.2\<close>, in any order and with
  any repetition: the pattern \<^verbatim>\<open>v1.x.x\<close> gives \<^verbatim>\<open>v1.4.2.2\<close>, the patterns \<^verbatim>\<open>v1.2.x\<close>
  and \<^verbatim>\<open>v1.2.3\<close> give \<^verbatim>\<open>v1.2.3.2\<close>, and the pattern \<^verbatim>\<open>v9.0.0\<close> fails with the
  error of a version that is not there.
\<close>

theorem example_tag_set:
  assumes "set version_numbers = {''v1.2.1'', ''v1.2.3'', ''v1.2.3.2'', ''v1.4.1'', ''v1.4.2.1'', ''v1.4.2.2''}"
  shows "find_latest_tag_by_pattern system_name version_numbers ''v1.x.x'' = Inr ''v1.4.2.2''
       \<and> find_latest_tag_by_pattern system_name version_numbers ''v1.2.x'' = Inr ''v1.2.3.2''
       \<and> find_latest_tag_by_pattern system_name version_numbers ''v1.2.3'' = Inr ''v1.2.3.2''
       \<and> find_latest_tag_by_pattern system_name version_numbers ''v9.0.0''
           = Inl (NoMatchingVersion (no_match_message system_name ''v9.0.0'' version_numbers))"
proof (intro conjI)
  note v = example_versions [OF assms]
  show "find_latest_tag_by_pattern system_name version_numbers ''v1.x.x'' = Inr ''v1.4.2.2''"
  proof -
    have "find_latest_tag_by_pattern system_name version_numbers ''v1.x.x'' = Inr (format_version [1, 4, 2, 2])"
    proof (rule latest_unique)
      show "pattern_accepted ''v1.x.x''" by (rule example_patterns)
      show "length (findall_segments ''v1.x.x'') \<le> 3" by (simp add: example_patterns)
      show "wildcards_last (findall_segments ''v1.x.x'')"
        by (simp add: example_patterns wildcards_last_def)
      show "[1, 4, 2, 2] \<in> set (parsed_versions version_numbers)" by (simp add: v)
      show "consistent (findall_segments ''v1.x.x'') [1, 4, 2, 2]" by (simp add: example_patterns)
      show "\<forall>l \<in> set (parsed_versions version_numbers).
              consistent (findall_segments ''v1.x.x'') l \<longrightarrow> l \<le> [1, 4, 2, 2]"
        by (simp add: v example_patterns)
    qed
    then show ?thesis by (simp add: example_patterns)
  qed
  show "find_latest_tag_by_pattern system_name version_numbers ''v1.2.x'' = Inr ''v1.2.3.2''"
  proof -
    have "find_latest_tag_by_pattern system_name version_numbers ''v1.2.x'' = Inr (format_version [1, 2, 3, 2])"
    proof (rule latest_unique)
      show "pattern_accepted ''v1.2.x''" by (rule example_patterns)
      show "length (findall_segments ''v1.2.x'') \<le> 3" by (simp add: example_patterns)
      show "wildcards_last (findall_segments ''v1.2.x'')"
        by (simp add: example_patterns wildcards_last_def)
      show "[1, 2, 3, 2] \<in> set (parsed_versions version_numbers)" by (simp add: v)
      show "consistent (findall_segments ''v1.2.x'') [1, 2, 3, 2]" by (simp add: example_patterns)
      show "\<forall>l \<in> set (parsed_versions version_numbers).
              consistent (findall_segments ''v1.2.x'') l \<longrightarrow> l \<le> [1, 2, 3, 2]"
        by (simp add: v example_patterns)
    qed
    then show ?thesis by (simp add: example_patterns)
  qed
  show "find_latest_tag_by_pattern system_name version_numbers ''v1.2.3'' = Inr ''v1.2.3.2''"
  proof -
    have "find_latest_tag_by_pattern system_name version_numbers ''v1.2.3'' = Inr (format_version [1, 2, 3, 2])"
    proof (rule latest_unique)
      show "pattern_accepted ''v1.2.3''" by (rule example_patterns)
      show "length (findall_segments ''v1.2.3'') \<le> 3" by (simp add: example_patterns)
      show "wildcards_last (findall_segments ''v1.2.3'')"
        by (simp add: example_patterns wildcards_last_def)
      show "[1, 2, 3, 2] \<in> set (parsed_versions version_numbers)" by (simp add: v)
      show "consistent (findall_segments ''v1.2.3'') [1, 2, 3, 2]" by (simp add: example_patterns)
      show "\<forall>l \<in> set (parsed_versions version_numbers).
              consistent (findall_segments ''v1.2.3'') l \<longrightarrow> l \<le> [1, 2, 3, 2]"
        by (simp add: v example_patterns)
    qed
    then show ?thesis by (simp add: example_patterns)
  qed
  show "find_latest_tag_by_pattern system_name version_numbers ''v9.0.0''
           = Inl (NoMatchingVersion (no_match_message system_name ''v9.0.0'' version_numbers))"
  proof (rule latest_no_match)
    show "pattern_accepted ''v9.0.0''" by (rule example_patterns)
    show "length (findall_segments ''v9.0.0'') \<le> 3" by (simp add: example_patterns)
    show "hd (findall_segments ''v9.0.0'') \<noteq> ''x''" by (simp add: example_patterns)
    show "\<forall>l \<in> set (parsed_versions version_numbers). \<not> consistent (findall_segments ''v9.0.0'') l"
      by (simp add: v example_patterns)
  qed
qed

text \<open>The six tags in the order the specification lists them.\<close>

theorem example_tag_set_witness:
  "set [''v1.2.1'', ''v1.2.3'', ''v1.2.3.2'', ''v1.4.1'', ''v1.4.2.1'', ''v1.4.2.2'']
     = {''v1.2.1'', ''v1.2.3'', ''v1.2.3.2'', ''v1.4.1'', ''v1.4.2.1'', ''v1.4.2.2''}
   \<and> find_latest_tag_by_pattern ''tk-app''
        [''v1.2.1'', ''v1.2.3'', ''v1.2.3.2'', ''v1.4.1'', ''v1.4.2.1'', ''v1.4.2.2''] ''v1.x.x''
       = Inr ''v1.4.2.2''"
proof -
  have s: "set [''v1.2.1'', ''v1.2.3'', ''v1.2.3.2'', ''v1.4.1'', ''v1.4.2.1'', ''v1.4.2.2'']
     = {''v1.2.1'', ''v1.2.3'', ''v1.2.3.2'', ''v1.4.1'', ''v1.4.2.1'', ''v1.4.2.2''}"
    by (simp only: list.set)
  from example_tag_set [OF s, of "''tk-app''"] s show ?thesis by blast
qed


text \<open>
  Claim C9. The patterns \<^verbatim>\<open>v1.2\<close>, \<^verbatim>\<open>1.2.3\<close> and \<^verbatim>\<open>v1.x.2\<close> are refused with the
  error of an invalid pattern, whatever the tags are: the first two by the first check,
  the third by the second.
\<close>

theorem rejected_patterns:
  "(\<exists>m. find_latest_tag_by_pattern system_name version_numbers ''v1.2''
           = Inl (InvalidVersionPattern m))
   \<and> (\<exists>m. find_latest_tag_by_pattern system_name version_numbers ''1.2.3''
           = Inl (InvalidVersionPattern m))
   \<and> (\<exists>m. find_latest_tag_by_pattern system_name version_numbers ''v1.x.2''
           = Inl (InvalidVersionPattern m))"
proof -
  have 1: "\<not> re_match_anchored grammar_rx ''v1.2''" by code_simp
  have 2: "\<not> re_match_anchored grammar_rx ''1.2.3''" by code_simp
  have 3: "re_match_anchored grammar_rx ''v1.x.2''"
    "''x'' \<in> set (findall_segments ''v1.x.2'')"
    "re_match_anchored digit_after_x_rx ''v1.x.2''"
    by code_simp+
  from 1 2 3 show ?thesis by (simp add: find_latest_tag_by_pattern_def Let_def)
qed

theorem rejected_patterns_witness:
  "(\<exists>m. find_latest_tag_by_pattern ''tk-app'' [''v1.2.3'', ''v1.2.4''] ''v1.2''
           = Inl (InvalidVersionPattern m))
   \<and> (\<exists>m. find_latest_tag_by_pattern ''tk-app'' [''v1.2.3'', ''v1.2.4''] ''1.2.3''
           = Inl (InvalidVersionPattern m))
   \<and> (\<exists>m. find_latest_tag_by_pattern ''tk-app'' [''v1.2.3'', ''v1.2.4''] ''v1.x.2''
           = Inl (InvalidVersionPattern m))"
  by (rule rejected_patterns)

lemma leading_wildcard_passes:
  "\<not> re_match_anchored digit_after_x_rx (CHR ''v'' # CHR ''x'' # rest)"
proof -
  have d: "dead (deriv CHR ''x'' (deriv CHR ''v'' digit_after_x_rx))"
    by (simp add: digit_after_x_rx_def chr_rx_def plus_rx_def is_digit_def)
  have m: "\<not> rx_matches digit_after_x_rx (CHR ''v'' # CHR ''x'' # s)" for s
    using dead_no_match [OF d, of s] by (simp add: rx_matches_def)
  have v: "\<not> rx_matches digit_after_x_rx ''v''"
    by (simp add: rx_matches_def digit_after_x_rx_def chr_rx_def plus_rx_def)
  show ?thesis
  proof (cases rest rule: rev_cases)
    case Nil
    with m [of "[]"] v show ?thesis by (simp add: re_match_anchored_def)
  next
    case (snoc ys y)
    have "butlast (CHR ''v'' # CHR ''x'' # ys @ [y]) = CHR ''v'' # CHR ''x'' # ys"
      by (simp add: butlast_append)
    with m [of rest] m [of ys] snoc show ?thesis
      by (simp add: re_match_anchored_def del: butlast.simps)
  qed
qed

text \<open>
  Claim C3 does not hold of the code. The second check asks for a digit or a dot right
  after the \<^verbatim>\<open>v\<close>, so no pattern that begins with the wildcard matches it, whatever
  follows: \<^verbatim>\<open>vx.1.2\<close> is never refused as an invalid pattern, and against the tag
  \<^verbatim>\<open>v1.1.2\<close> it is answered.
\<close>

theorem digit_after_leading_wildcard_accepted:
  "(\<forall>rest. \<not> re_match_anchored digit_after_x_rx (''vx'' @ rest))
   \<and> (\<forall>m. find_latest_tag_by_pattern system_name version_numbers ''vx.1.2''
           \<noteq> Inl (InvalidVersionPattern m))
   \<and> find_latest_tag_by_pattern system_name [''v1.1.2''] ''vx.1.2'' = Inr ''v1.1.2''"
proof -
  have acc: "re_match_anchored grammar_rx ''vx.1.2''"
    "\<not> re_match_anchored digit_after_x_rx ''vx.1.2''"
    by code_simp+
  have "find_latest_tag_by_pattern system_name version_numbers ''vx.1.2''
           \<noteq> Inl (InvalidVersionPattern m)" for m
    using acc
    by (auto simp: find_latest_tag_by_pattern_def Let_def split: sum.splits option.splits
             dest: match_errors)
  moreover have "find_latest_tag_by_pattern system_name [''v1.1.2''] ''vx.1.2'' = Inr ''v1.1.2''"
    by code_simp
  moreover have "\<not> re_match_anchored digit_after_x_rx (''vx'' @ rest)" for rest
    using leading_wildcard_passes [of rest] by simp
  ultimately show ?thesis by blast
qed

section \<open>Cache paths and the local copy\<close>

text \<open>
  \<^verbatim>\<open>os.path.join(a, *p)\<close> of \<^verbatim>\<open>posixpath\<close>: a component that begins with a slash starts
  the path anew; otherwise it is appended, after a slash unless the path so far is empty
  or ends with one.
\<close>

definition join_component :: "string \<Rightarrow> string \<Rightarrow> string" where
  "join_component path b =
     (if take 1 b = ''/'' then b
      else if path = [] \<or> last path = CHR ''/'' then path @ b
      else path @ ''/'' @ b)"

definition path_join :: "string \<Rightarrow> string list \<Rightarrow> string" where
  "path_join a p = foldl join_component a p"

text \<open>
  Modelled from the spec: \<^verbatim>\<open>constants.BUNDLE_METADATA_FILE\<close>, whose module is not among
  the source files. The specification speaks of a metadata file of a fixed name at the
  root of every bundle; the comment in \<^verbatim>\<open>get_path\<close> gives the name.
\<close>

definition BUNDLE_METADATA_FILE :: string where
  "BUNDLE_METADATA_FILE = ''info.yml''"

text \<open>
  Modelled from the spec: the bundle types, whose class \<^verbatim>\<open>Descriptor\<close> is not among the
  source files. The specification has apps, engines and frameworks;
  \<^verbatim>\<open>_get_legacy_bundle_install_folder\<close> tells \<^verbatim>\<open>Descriptor.APP\<close>, \<^verbatim>\<open>Descriptor.ENGINE\<close>
  and \<^verbatim>\<open>Descriptor.FRAMEWORK\<close> apart, and \<open>OTHER\<close> stands for every other value.
\<close>

datatype bundle_type = APP | ENGINE | FRAMEWORK | OTHER

definition get_legacy_bundle_install_folder ::
  "string \<Rightarrow> string \<Rightarrow> bundle_type \<Rightarrow> string \<Rightarrow> string \<Rightarrow> error + string" where
  "get_legacy_bundle_install_folder descriptor_name install_cache_root bundle_type bundle_name
       bundle_version =
     (case (case bundle_type of
              APP \<Rightarrow> Some ''apps''
            | ENGINE \<Rightarrow> Some ''engines''
            | FRAMEWORK \<Rightarrow> Some ''frameworks''
            | OTHER \<Rightarrow> None) of
        None \<Rightarrow> Inl (PyRuntimeError ''Unknown bundle type. Can not determine legacy cache path.'')
      | Some legacy_dir \<Rightarrow>
          Inr (path_join install_cache_root
                 [legacy_dir, descriptor_name, bundle_name, bundle_version]))"

text \<open>
  Modelled from the spec: \<^verbatim>\<open>_get_cache_paths\<close>, which the base class leaves to the
  deriving classes (it raises \<^verbatim>\<open>NotImplementedError\<close>) and of which no implementation is
  among the source files. Section 4.2 of the specification: for each root in the order
  primary, first fallback, second fallback, ..., first the new-style path
  \<^verbatim>\<open>root/type/name/version\<close>, then the legacy-style path
  \<^verbatim>\<open>root/<legacy-dir>/type/name/version\<close>. The legacy-style path is the one that
  \<^verbatim>\<open>_get_legacy_bundle_install_folder\<close> of the source computes.
\<close>

fun cache_paths_under ::
  "string \<Rightarrow> string \<Rightarrow> string \<Rightarrow> bundle_type \<Rightarrow> string list \<Rightarrow> error + string list" where
  "cache_paths_under descriptor_name bundle_name bundle_version bundle_type [] = Inr []"
| "cache_paths_under descriptor_name bundle_name bundle_version bundle_type (root # roots) =
     (case get_legacy_bundle_install_folder descriptor_name root bundle_type bundle_name
             bundle_version of
        Inl e \<Rightarrow> Inl e
      | Inr legacy \<Rightarrow>
          (case cache_paths_under descriptor_name bundle_name bundle_version bundle_type roots of
             Inl e \<Rightarrow> Inl e
           | Inr rest \<Rightarrow>
               Inr (path_join root [descriptor_name, bundle_name, bundle_version]
                    # legacy # rest)))"

text \<open>
  Modelled from the spec: the roots of \<^verbatim>\<open>_get_cache_paths\<close> are the primary root, then
  the fallback roots in their order.
\<close>

definition get_cache_paths ::
  "string \<Rightarrow> string \<Rightarrow> string \<Rightarrow> bundle_type \<Rightarrow> string \<Rightarrow> string list \<Rightarrow> error + string list" where
  "get_cache_paths descriptor_name bundle_name bundle_version bundle_type bundle_cache_root
       fallback_roots =
     cache_paths_under descriptor_name bundle_name bundle_version bundle_type
       (bundle_cache_root # fallback_roots)"

subsection \<open>The world outside the descriptor\<close>

text \<open>
  What the code asks of the disk: whether a path exists (\<^verbatim>\<open>os.path.exists\<close>) and what
  a file holds (\<^verbatim>\<open>open(path)\<close>, \<open>None\<close> when opening raises). The world records, in
  the order they happen, the probes of the disk, the files opened and the calls of
  \<^verbatim>\<open>download_local\<close>.
\<close>

record disk =
  present :: "string \<Rightarrow> bool"
  contents :: "string \<Rightarrow> string option"

datatype event = Probe string | Load string | Download

record world =
  on_disk :: disk
  events :: "event list"

definition record_event :: "event \<Rightarrow> world \<Rightarrow> world" where
  "record_event e w = w\<lparr>events := events w @ [e]\<rparr>"

text \<open>
  \<^verbatim>\<open>get_path\<close>: the first of the cache paths under which the metadata file exists, or
  \<^verbatim>\<open>None\<close>. The list is what \<^verbatim>\<open>self._get_cache_paths()\<close> returns.
\<close>

fun get_path :: "string list \<Rightarrow> world \<Rightarrow> string option \<times> world" where
  "get_path [] w = (None, w)"
| "get_path (path # paths) w =
     (let info_yml_path = path_join path [BUNDLE_METADATA_FILE];
          w' = record_event (Probe info_yml_path) w
      in if present (on_disk w') info_yml_path then (Some path, w') else get_path paths w')"

definition exists_local :: "string list \<Rightarrow> world \<Rightarrow> bool \<times> world" where
  "exists_local cache_paths w = (case get_path cache_paths w of (path, w') \<Rightarrow> (path \<noteq> None, w'))"


subsection \<open>The first cache path that holds the metadata file\<close>

lemma get_path_disk: "on_disk (snd (get_path ps w)) = on_disk w"
  by (induction ps arbitrary: w) (auto simp: Let_def record_event_def)

lemma get_path_first:
  "fst (get_path ps w) =
     (case find (\<lambda>p. present (on_disk w) (path_join p [BUNDLE_METADATA_FILE])) ps of
        None \<Rightarrow> None | Some p \<Rightarrow> Some p)"
  by (induction ps arbitrary: w) (auto simp: Let_def record_event_def split: option.splits)

lemma get_path_None:
  "(fst (get_path ps w) = None) =
     (list_all (\<lambda>p. \<not> present (on_disk w) (path_join p [BUNDLE_METADATA_FILE])) ps)"
  by (induction ps arbitrary: w) (auto simp: Let_def record_event_def)

lemma get_path_Some:
  "fst (get_path ps w) = Some p \<Longrightarrow>
     \<exists>i < length ps. ps ! i = p \<and> present (on_disk w) (path_join p [BUNDLE_METADATA_FILE])
        \<and> list_all (\<lambda>q. \<not> present (on_disk w) (path_join q [BUNDLE_METADATA_FILE])) (take i ps)"
proof (induction ps arbitrary: w)
  case Nil
  then show ?case by simp
next
  case (Cons a ps)
  show ?case
  proof (cases "present (on_disk w) (path_join a [BUNDLE_METADATA_FILE])")
    case True
    with Cons.prems show ?thesis
      by (intro exI [of _ 0]) (simp add: Let_def record_event_def)
  next
    case False
    with Cons.prems have "fst (get_path ps (record_event (Probe (path_join a [BUNDLE_METADATA_FILE])) w)) = Some p"
      by (simp add: Let_def record_event_def)
    from Cons.IH [OF this] obtain i where "i < length ps" "ps ! i = p"
      "present (on_disk w) (path_join p [BUNDLE_METADATA_FILE])"
      "list_all (\<lambda>q. \<not> present (on_disk w) (path_join q [BUNDLE_METADATA_FILE])) (take i ps)"
      by (auto simp: record_event_def)
    with False show ?thesis by (intro exI [of _ "Suc i"]) simp
  qed
qed

section \<open>The descriptor, its provider and its manifest\<close>

text \<open>
  What the deriving class and the libraries supply: \<^verbatim>\<open>download_local\<close>, which changes
  the disk and may raise (\<open>Some\<close> message), and \<^verbatim>\<open>yaml.load\<close>, which raises (\<open>Inl\<close>) or
  returns a value, Python's \<^verbatim>\<open>None\<close> (\<open>None\<close>) for a document that is empty.
\<close>

record 'm provider =
  download_local :: "disk \<Rightarrow> string option \<times> disk"
  yaml_load :: "string \<Rightarrow> string + 'm option"

text \<open>
  The instance: the list that \<^verbatim>\<open>_get_cache_paths()\<close> returns, which the identity and the
  roots fix, and the attribute \<^verbatim>\<open>__manifest_data\<close>, \<^verbatim>\<open>None\<close> from the constructor on.
\<close>

record 'm descriptor =
  cache_paths :: "string list"
  manifest_data :: "'m option"

definition run_download :: "'m provider \<Rightarrow> world \<Rightarrow> error option \<times> world" where
  "run_download prov w =
     (case download_local prov (on_disk w) of
        (raised, d) \<Rightarrow> (map_option ProviderFailure raised, (record_event Download w)\<lparr>on_disk := d\<rparr>))"

definition ensure_local :: "'m provider \<Rightarrow> 'm descriptor \<Rightarrow> world \<Rightarrow> error option \<times> world" where
  "ensure_local prov self w =
     (case exists_local (cache_paths self) w of
        (local, w1) \<Rightarrow> if \<not> local then run_download prov w1 else (None, w1))"

text \<open>
  \<^verbatim>\<open>get_manifest\<close>. \<^verbatim>\<open>os.path.join(bundle_root, ...)\<close> raises when \<^verbatim>\<open>get_path()\<close> has
  returned \<^verbatim>\<open>None\<close>; every exception of \<^verbatim>\<open>open\<close> and of \<^verbatim>\<open>yaml.load\<close> is turned into the
  error of a metadata file that cannot be loaded. The attribute is assigned in the last
  step only.
\<close>

definition get_manifest ::
  "'m provider \<Rightarrow> 'm descriptor \<Rightarrow> world \<Rightarrow> (error + 'm option) \<times> 'm descriptor \<times> world" where
  "get_manifest prov self w =
     (if manifest_data self \<noteq> None then (Inr (manifest_data self), self, w)
      else
        case exists_local (cache_paths self) w of (local, w1) \<Rightarrow>
        case (if \<not> local then run_download prov w1 else (None, w1)) of
          (Some e, w2) \<Rightarrow> (Inl e, self, w2)
        | (None, w2) \<Rightarrow>
            (case get_path (cache_paths self) w2 of
               (None, w3) \<Rightarrow> (Inl PyAttributeError, self, w3)
             | (Some bundle_root, w3) \<Rightarrow>
                 let file_path = path_join bundle_root [BUNDLE_METADATA_FILE];
                     w4 = record_event (Probe file_path) w3
                 in if \<not> present (on_disk w4) file_path
                    then (Inl (MetadataMissing file_path), self, w4)
                    else
                      let w5 = record_event (Load file_path) w4 in
                      case contents (on_disk w5) file_path of
                        None \<Rightarrow> (Inl (MetadataUnreadable file_path), self, w5)
                      | Some file_data \<Rightarrow>
                          (case yaml_load prov file_data of
                             Inl exp \<Rightarrow> (Inl (MetadataUnreadable file_path), self, w5)
                           | Inr metadata \<Rightarrow>
                               (Inr metadata, self\<lparr>manifest_data := metadata\<rparr>, w5))))"

text \<open>Calls in a row, each in the world the one before has left.\<close>

fun ensure_local_times :: "nat \<Rightarrow> 'm provider \<Rightarrow> 'm descriptor \<Rightarrow> world \<Rightarrow> world" where
  "ensure_local_times 0 prov self w = w"
| "ensure_local_times (Suc n) prov self w =
     ensure_local_times n prov self (snd (ensure_local prov self w))"

fun get_manifest_times ::
  "nat \<Rightarrow> 'm provider \<Rightarrow> 'm descriptor \<Rightarrow> world
     \<Rightarrow> (error + 'm option) list \<times> 'm descriptor \<times> world" where
  "get_manifest_times 0 prov self w = ([], self, w)"
| "get_manifest_times (Suc n) prov self w =
     (case get_manifest prov self w of
        (r, self', w') \<Rightarrow>
          (case get_manifest_times n prov self' w' of (rs, self'', w'') \<Rightarrow> (r # rs, self'', w'')))"

definition count_event :: "event \<Rightarrow> world \<Rightarrow> nat" where
  "count_event e w = length (filter (\<lambda>x. x = e) (events w))"

text \<open>
  What one run of \<^verbatim>\<open>exists_local\<close> asks of a disk: the events it records in a world
  that has recorded none.
\<close>

definition exists_local_trace :: "string list \<Rightarrow> disk \<Rightarrow> event list" where
  "exists_local_trace paths d = events (snd (exists_local paths \<lparr>on_disk = d, events = []\<rparr>))"

lemma get_path_events:
  "\<exists>es. events (snd (get_path ps w)) = events w @ es \<and> Download \<notin> set es
        \<and> (\<forall>f. Load f \<notin> set es) \<and> (ps \<noteq> [] \<longrightarrow> es \<noteq> [])"
proof (induction ps arbitrary: w)
  case Nil
  then show ?case by simp
next
  case (Cons a ps)
  let ?w = "record_event (Probe (path_join a [BUNDLE_METADATA_FILE])) w"
  from Cons.IH [of ?w] obtain es where
    "events (snd (get_path ps ?w)) = events ?w @ es" "Download \<notin> set es" "\<forall>f. Load f \<notin> set es"
    by blast
  then show ?case
    by (cases "present (on_disk w) (path_join a [BUNDLE_METADATA_FILE])")
       (auto simp: Let_def record_event_def)
qed

lemma get_path_again:
  "fst (get_path ps (snd (get_path ps w))) = fst (get_path ps w)"
  by (simp add: get_path_first get_path_disk)

section \<open>Claims about the cache paths and the manifest\<close>

text \<open>The six candidate paths of the specification's example, in its order.\<close>

definition example_cache_paths :: "string list" where
  "example_cache_paths =
     [''/P/app/foo/v1.0.0'', ''/P/apps/app/foo/v1.0.0'',
      ''/F1/app/foo/v1.0.0'', ''/F1/apps/app/foo/v1.0.0'',
      ''/F2/app/foo/v1.0.0'', ''/F2/apps/app/foo/v1.0.0'']"

lemma exists_local_fst: "fst (exists_local ps w) = (fst (get_path ps w) \<noteq> None)"
  by (simp add: exists_local_def split: prod.splits)

lemma exists_local_snd: "snd (exists_local ps w) = snd (get_path ps w)"
  by (simp add: exists_local_def split: prod.splits)

text \<open>
  Claim C5. For the descriptor type \<^verbatim>\<open>app\<close> of an app bundle named \<^verbatim>\<open>foo\<close> at version
  \<^verbatim>\<open>v1.0.0\<close>, with the primary root \<^verbatim>\<open>/P\<close> and the fallback roots \<^verbatim>\<open>/F1\<close> and \<^verbatim>\<open>/F2\<close>,
  the cache paths are the six of \<open>example_cache_paths\<close> in that order. On whatever disk,
  \<open>get_path\<close> returns \<^verbatim>\<open>None\<close> exactly when none of the six holds the metadata file, and
  otherwise the first of them that does; \<open>exists_local\<close> says whether \<open>get_path\<close>
  has found one.
\<close>

theorem cache_path_order:
  "get_cache_paths ''app'' ''foo'' ''v1.0.0'' APP ''/P'' [''/F1'', ''/F2''] = Inr example_cache_paths
   \<and> (fst (get_path example_cache_paths w) = None
        \<longleftrightarrow> list_all (\<lambda>p. \<not> present (on_disk w) (path_join p [BUNDLE_METADATA_FILE]))
              example_cache_paths)
   \<and> (\<forall>p. fst (get_path example_cache_paths w) = Some p \<longrightarrow>
          (\<exists>i < length example_cache_paths.
             example_cache_paths ! i = p
             \<and> present (on_disk w) (path_join p [BUNDLE_METADATA_FILE])
             \<and> list_all (\<lambda>q. \<not> present (on_disk w) (path_join q [BUNDLE_METADATA_FILE]))
                  (take i example_cache_paths)))
   \<and> fst (exists_local example_cache_paths w) = (fst (get_path example_cache_paths w) \<noteq> None)"
proof (intro conjI allI impI)
  show "get_cache_paths ''app'' ''foo'' ''v1.0.0'' APP ''/P'' [''/F1'', ''/F2''] = Inr example_cache_paths"
    by code_simp
qed (auto simp: get_path_None exists_local_fst dest: get_path_Some)

text \<open>A disk on which the metadata file lies under the third and the sixth path.\<close>

definition example_world :: world where
  "example_world =
     \<lparr>on_disk = \<lparr>present = (\<lambda>p. p = ''/F1/app/foo/v1.0.0/info.yml''
                               \<or> p = ''/F2/apps/app/foo/v1.0.0/info.yml''),
                  contents = (\<lambda>p. None)\<rparr>,
      events = []\<rparr>"

theorem cache_path_order_witness:
  "fst (get_path example_cache_paths example_world) = Some ''/F1/app/foo/v1.0.0''
   \<and> (\<exists>i < length example_cache_paths.
         example_cache_paths ! i = ''/F1/app/foo/v1.0.0''
         \<and> present (on_disk example_world) (path_join ''/F1/app/foo/v1.0.0'' [BUNDLE_METADATA_FILE])
         \<and> list_all (\<lambda>q. \<not> present (on_disk example_world) (path_join q [BUNDLE_METADATA_FILE]))
              (take i example_cache_paths))
   \<and> fst (exists_local example_cache_paths example_world)"
proof -
  have found: "fst (get_path example_cache_paths example_world) = Some ''/F1/app/foo/v1.0.0''"
    by code_simp
  with cache_path_order [of example_world] show ?thesis by simp
qed

subsection \<open>What a call of \<open>get_manifest\<close> does\<close>

lemma get_manifest_cached:
  "manifest_data self = Some m \<Longrightarrow> get_manifest prov self w = (Inr (Some m), self, w)"
  by (simp add: get_manifest_def)

lemma get_manifest_cases:
  assumes "get_manifest prov self w = (r, self', w')"
  shows "(manifest_data self \<noteq> None \<and> r = Inr (manifest_data self) \<and> self' = self \<and> w' = w)
       \<or> (manifest_data self = None \<and> (\<exists>e. r = Inl e) \<and> self' = self)
       \<or> (manifest_data self = None \<and> (\<exists>metadata. r = Inr metadata
             \<and> self' = self\<lparr>manifest_data := metadata\<rparr>))"
  using assms
  by (auto simp: get_manifest_def Let_def split: if_splits prod.splits option.splits sum.splits)

lemma get_manifest_times_cached:
  "manifest_data self = Some m
   \<Longrightarrow> get_manifest_times n prov self w = (replicate n (Inr (Some m)), self, w)"
  by (induction n) (simp_all add: get_manifest_cached)

lemma run_download_events:
  "events (snd (run_download prov w)) = events w @ [Download]"
  by (simp add: run_download_def record_event_def split: prod.splits)

lemma get_manifest_fresh:
  assumes "manifest_data self = None"
  shows "length (events w) < length (events (snd (snd (get_manifest prov self w))))"
proof -
  obtain loc w1 where e: "exists_local (cache_paths self) w = (loc, w1)" by (cases "exists_local (cache_paths self) w")
  then have w1: "w1 = snd (get_path (cache_paths self) w)" and loc: "loc = (fst (get_path (cache_paths self) w) \<noteq> None)"
    using exists_local_fst [of "cache_paths self" w] exists_local_snd [of "cache_paths self" w] by simp_all
  obtain r w2 where s: "(if \<not> loc then run_download prov w1 else (None, w1)) = (r, w2)"
    by (cases "if \<not> loc then run_download prov w1 else (None, w1)")
  from get_path_events [of "cache_paths self" w] w1 obtain es1 where
    es1: "events w1 = events w @ es1" "cache_paths self \<noteq> [] \<longrightarrow> es1 \<noteq> []" by blast
  have grow: "length (events w) < length (events w2)"
  proof (cases loc)
    case True
    with loc have "cache_paths self \<noteq> []" by auto
    with es1 True s show ?thesis by auto
  next
    case False
    with s have "w2 = snd (run_download prov w1)" by simp
    with es1 show ?thesis by (simp add: run_download_events)
  qed
  have mono: "length (events w2) \<le> length (events (snd (get_path (cache_paths self) w2)))"
    using get_path_events [of "cache_paths self" w2] by auto
  show ?thesis
    using assms e s grow mono
    by (auto simp: get_manifest_def Let_def record_event_def
             split: prod.splits option.splits sum.splits)
qed

lemma get_manifest_loads:
  assumes none: "manifest_data self = None"
    and found: "fst (get_path (cache_paths self) w) = Some p"
    and cont: "contents (on_disk w) (path_join p [BUNDLE_METADATA_FILE]) = Some file_data"
    and yaml: "yaml_load prov file_data = Inr metadata"
  shows "\<exists>w'. get_manifest prov self w = (Inr metadata, self\<lparr>manifest_data := metadata\<rparr>, w')
           \<and> on_disk w' = on_disk w
           \<and> count_event (Load (path_join p [BUNDLE_METADATA_FILE])) w'
               = Suc (count_event (Load (path_join p [BUNDLE_METADATA_FILE])) w)
           \<and> count_event Download w' = count_event Download w"
proof -
  let ?ps = "cache_paths self" and ?f = "path_join p [BUNDLE_METADATA_FILE]"
  from found obtain w1 where g1: "get_path ?ps w = (Some p, w1)"
    by (cases "get_path ?ps w") simp
  then have w1: "w1 = snd (get_path ?ps w)" by simp
  have "fst (get_path ?ps w1) = Some p"
    using get_path_again [of ?ps w] found by (simp add: w1)
  then obtain w3 where g3: "get_path ?ps w1 = (Some p, w3)"
    by (cases "get_path ?ps w1") simp
  then have w3: "w3 = snd (get_path ?ps w1)" by simp
  from g1 have e: "exists_local ?ps w = (True, w1)" by (simp add: exists_local_def)
  have d: "on_disk w3 = on_disk w" by (simp add: w3 w1 get_path_disk)
  from get_path_Some [OF found] have pr: "present (on_disk w) ?f" by blast
  from get_path_events [of ?ps w] obtain es1 where
    es1: "events w1 = events w @ es1" "Download \<notin> set es1" "\<forall>f. Load f \<notin> set es1"
    unfolding w1 by blast
  from get_path_events [of ?ps w1] obtain es2 where
    es2: "events w3 = events w1 @ es2" "Download \<notin> set es2" "\<forall>f. Load f \<notin> set es2"
    unfolding w3 by blast
  have f1: "filter (\<lambda>x. x = e) es = []" if "e \<notin> set es" for e :: event and es
    using that by (induction es) auto
  show ?thesis
    using none d pr cont yaml es1 es2
    by (simp add: get_manifest_def e g3 Let_def record_event_def count_event_def f1)
qed

text \<open>
  \<open>get_path\<close> returns a path only when the metadata file exists under it, and nothing
  changes the disk between that call and the check that follows in \<open>get_manifest\<close>. So
  the error of a missing metadata file is never the outcome: a bundle that is still
  absent after the download ends the call at \<^verbatim>\<open>os.path.join\<close>.
\<close>

lemma metadata_missing_never_raised:
  "fst (get_manifest prov self w) \<noteq> Inl (MetadataMissing f)"
proof -
  have found: "present (on_disk w3) (path_join p [BUNDLE_METADATA_FILE])"
    if "get_path ps w2 = (Some p, w3)" for ps w2 p w3
  proof -
    from that have "fst (get_path ps w2) = Some p" and "w3 = snd (get_path ps w2)" by simp_all
    with get_path_Some [of ps w2 p] show ?thesis by (auto simp: get_path_disk)
  qed
  show ?thesis
    by (auto simp: get_manifest_def Let_def record_event_def run_download_def found
             split: prod.splits option.splits sum.splits if_splits)
qed

text \<open>
  Claim C6. Once a call of \<open>get_manifest\<close> has returned a manifest, the instance holds
  it, and every later call on the instance returns that manifest and leaves the instance
  and the world as they are, whatever the world is by then: nothing is probed, opened or
  downloaded, so a metadata file deleted or changed in between makes no difference.
\<close>

theorem manifest_memoized:
  assumes "get_manifest prov self w = (Inr (Some m), self', w')"
  shows "manifest_data self' = Some m
       \<and> (\<forall>w2. get_manifest prov self' w2 = (Inr (Some m), self', w2))
       \<and> (\<forall>n w2. get_manifest_times n prov self' w2 = (replicate n (Inr (Some m)), self', w2))"
proof -
  from get_manifest_cases [OF assms] have "manifest_data self' = Some m" by auto
  then show ?thesis by (simp add: get_manifest_cached get_manifest_times_cached)
qed

lemma get_manifest_absent:
  assumes none: "manifest_data self = None"
    and ok: "fst (ensure_local prov self w) = None"
    and absent: "fst (get_path (cache_paths self) (snd (ensure_local prov self w))) = None"
  shows "get_manifest prov self w
           = (Inl PyAttributeError, self,
              snd (get_path (cache_paths self) (snd (ensure_local prov self w))))"
proof -
  obtain loc w1 where e: "exists_local (cache_paths self) w = (loc, w1)"
    by (cases "exists_local (cache_paths self) w")
  obtain r w2 where s: "(if \<not> loc then run_download prov w1 else (None, w1)) = (r, w2)"
    by (cases "if \<not> loc then run_download prov w1 else (None, w1)")
  from e s have el: "ensure_local prov self w = (r, w2)"
    by (simp add: ensure_local_def)
  with ok have r: "r = None" by simp
  obtain q w3 where g: "get_path (cache_paths self) w2 = (q, w3)"
    by (cases "get_path (cache_paths self) w2")
  with absent el have q: "q = None" by simp
  from none e s r g q el show ?thesis
    by (simp add: get_manifest_def)
qed

text \<open>
  Claim C7. A call of \<open>get_manifest\<close> never fails with the error of a missing metadata
  file. When nothing is cached, \<open>ensure_local\<close> has raised nothing and the bundle is
  still absent from every cache path, the call ends at \<^verbatim>\<open>os.path.join(None, ...)\<close>, with
  the exception of Python and not with the error that the code raises three lines further
  down and that the claim names. What the claim says of the instance holds: when a call
  fails, with whichever error, the instance is what it was before the call and holds no
  manifest; a later call goes to the disk again, in any world, and returns the manifest
  when the metadata file is then found and parses.
\<close>

theorem absent_metadata_raises_attribute_error:
  "(\<forall>f. fst (get_manifest prov self w) \<noteq> Inl (MetadataMissing f))
   \<and> (manifest_data self = None
        \<and> fst (ensure_local prov self w) = None
        \<and> fst (get_path (cache_paths self) (snd (ensure_local prov self w))) = None
      \<longrightarrow> get_manifest prov self w
            = (Inl PyAttributeError, self,
               snd (get_path (cache_paths self) (snd (ensure_local prov self w)))))
   \<and> (\<forall>e self' w'. get_manifest prov self w = (Inl e, self', w') \<longrightarrow>
         self' = self \<and> manifest_data self' = None
         \<and> (\<forall>w2. length (events w2) < length (events (snd (snd (get_manifest prov self' w2)))))
         \<and> (\<forall>w2 p file_data m.
               fst (get_path (cache_paths self') w2) = Some p
               \<and> contents (on_disk w2) (path_join p [BUNDLE_METADATA_FILE]) = Some file_data
               \<and> yaml_load prov file_data = Inr (Some m)
               \<longrightarrow> fst (get_manifest prov self' w2) = Inr (Some m)))"
proof (intro conjI allI impI)
  show "fst (get_manifest prov self w) \<noteq> Inl (MetadataMissing f)" for f
    by (rule metadata_missing_never_raised)
  show "get_manifest prov self w
            = (Inl PyAttributeError, self,
               snd (get_path (cache_paths self) (snd (ensure_local prov self w))))"
    if "manifest_data self = None
        \<and> fst (ensure_local prov self w) = None
        \<and> fst (get_path (cache_paths self) (snd (ensure_local prov self w))) = None"
    using that by (intro get_manifest_absent) simp_all
next
  fix e self' w'
  assume a: "get_manifest prov self w = (Inl e, self', w')"
  from get_manifest_cases [OF a] have s: "self' = self" "manifest_data self = None" by auto
  from s show "self' = self" "manifest_data self' = None" by simp_all
  show "length (events w2) < length (events (snd (snd (get_manifest prov self' w2))))" for w2
    using s by (simp add: get_manifest_fresh)
  show "fst (get_manifest prov self' w2) = Inr (Some m)"
    if "fst (get_path (cache_paths self') w2) = Some p
               \<and> contents (on_disk w2) (path_join p [BUNDLE_METADATA_FILE]) = Some file_data
               \<and> yaml_load prov file_data = Inr (Some m)" for w2 p file_data m
  proof -
    from that s have h: "fst (get_path (cache_paths self) w2) = Some p"
      "contents (on_disk w2) (path_join p [BUNDLE_METADATA_FILE]) = Some file_data"
      "yaml_load prov file_data = Inr (Some m)" by simp_all
    from get_manifest_loads [OF s(2) h] s(1) show ?thesis by auto
  qed
qed

lemma ensure_local_when_local:
  assumes "fst (exists_local (cache_paths self) w)"
  shows "fst (ensure_local prov self w) = None"
    and "on_disk (snd (ensure_local prov self w)) = on_disk w"
    and "count_event Download (snd (ensure_local prov self w)) = count_event Download w"
proof -
  let ?ps = "cache_paths self"
  obtain w1 where e: "exists_local ?ps w = (True, w1)"
    using assms by (cases "exists_local ?ps w") simp
  then have w1: "w1 = snd (get_path ?ps w)"
    using exists_local_snd [of ?ps w] by simp
  from get_path_events [of ?ps w] obtain es where
    es: "events w1 = events w @ es" "Download \<notin> set es" unfolding w1 by blast
  have f1: "filter (\<lambda>x. x = Download) es = []"
    using es(2) by (induction es) auto
  show "fst (ensure_local prov self w) = None"
    by (simp add: ensure_local_def e)
  show "on_disk (snd (ensure_local prov self w)) = on_disk w"
    by (simp add: ensure_local_def e w1 get_path_disk)
  show "count_event Download (snd (ensure_local prov self w)) = count_event Download w"
    by (simp add: ensure_local_def e count_event_def es f1)
qed

lemma exists_local_disk:
  "on_disk w2 = on_disk w \<Longrightarrow> fst (exists_local ps w2) = fst (exists_local ps w)"
  by (simp add: exists_local_fst get_path_first)

lemma ensure_local_times_when_local:
  "fst (exists_local (cache_paths self) w) \<Longrightarrow>
     on_disk (ensure_local_times n prov self w) = on_disk w
     \<and> count_event Download (ensure_local_times n prov self w) = count_event Download w"
proof (induction n arbitrary: w)
  case 0
  then show ?case by simp
next
  case (Suc n)
  let ?w = "snd (ensure_local prov self w)"
  note step = ensure_local_when_local [OF Suc.prems, of prov]
  from Suc.prems have "fst (exists_local (cache_paths self) ?w)"
    by (simp only: exists_local_disk [OF step(2)])
  from Suc.IH [OF this]
  have "on_disk (ensure_local_times n prov self ?w) = on_disk ?w"
    and "count_event Download (ensure_local_times n prov self ?w) = count_event Download ?w"
    by blast+
  with step(2,3) show ?case
    unfolding ensure_local_times.simps by (simp only:) 
qed

text \<open>
  Claim C8. For a descriptor whose bundle is local, a call of \<open>ensure_local\<close> raises
  nothing, leaves the disk as it is and downloads nothing; and after any number of calls
  in a row the disk is unchanged and \<open>download_local\<close> has been called as often as before
  the first of them, that is not once more.
\<close>

theorem ensure_local_idempotent:
  assumes "fst (exists_local (cache_paths self) w)"
  shows "fst (ensure_local prov self w) = None
       \<and> on_disk (snd (ensure_local prov self w)) = on_disk w
       \<and> count_event Download (snd (ensure_local prov self w)) = count_event Download w
       \<and> (\<forall>n. on_disk (ensure_local_times n prov self w) = on_disk w
              \<and> count_event Download (ensure_local_times n prov self w) = count_event Download w
              \<and> count_event Download (ensure_local_times n prov self w)
                  \<le> count_event Download w + 1)"
  using ensure_local_when_local [OF assms, of prov]
    ensure_local_times_when_local [OF assms, of _ prov]
  by simp

lemma get_manifest_null_times:
  assumes none: "manifest_data self = None"
    and found: "fst (get_path (cache_paths self) w) = Some p"
    and cont: "contents (on_disk w) (path_join p [BUNDLE_METADATA_FILE]) = Some file_data"
    and yaml: "yaml_load prov file_data = Inr None"
  shows "\<exists>w'. get_manifest_times n prov self w = (replicate n (Inr None), self, w')
           \<and> on_disk w' = on_disk w
           \<and> count_event (Load (path_join p [BUNDLE_METADATA_FILE])) w'
               = count_event (Load (path_join p [BUNDLE_METADATA_FILE])) w + n"
  using found cont
proof (induction n arbitrary: w)
  case 0
  then show ?case by simp
next
  case (Suc n)
  from none have same: "self\<lparr>manifest_data := None\<rparr> = self" by simp
  from get_manifest_loads [OF none Suc.prems yaml] same obtain w1 where
    w1: "get_manifest prov self w = (Inr None, self, w1)" "on_disk w1 = on_disk w"
    "count_event (Load (path_join p [BUNDLE_METADATA_FILE])) w1
       = Suc (count_event (Load (path_join p [BUNDLE_METADATA_FILE])) w)"
    by auto
  from Suc.prems w1(2) have "fst (get_path (cache_paths self) w1) = Some p"
    "contents (on_disk w1) (path_join p [BUNDLE_METADATA_FILE]) = Some file_data"
    by (simp_all add: get_path_first)
  from Suc.IH [OF this] obtain w' where
    "get_manifest_times n prov self w1 = (replicate n (Inr None), self, w')"
    "on_disk w' = on_disk w1"
    "count_event (Load (path_join p [BUNDLE_METADATA_FILE])) w'
       = count_event (Load (path_join p [BUNDLE_METADATA_FILE])) w1 + n"
    by blast
  with w1 show ?case by simp
qed

text \<open>
  The events of a run of \<open>get_path\<close> do not depend on what was recorded before it, and
  a run that finds the bundle ends with the probe of its metadata file. A call of
  \<open>get_manifest\<close> that loads the metadata file of a local bundle records the check of
  \<^verbatim>\<open>exists_local\<close>, the same probes again for \<^verbatim>\<open>get_path\<close>, the check that the file
  exists and the opening of the file.
\<close>

lemma get_path_trace:
  "events (snd (get_path ps w))
     = events w @ events (snd (get_path ps \<lparr>on_disk = on_disk w, events = []\<rparr>))"
proof (induction ps arbitrary: w)
  case Nil
  then show ?case by simp
next
  case (Cons a ps)
  let ?f = "path_join a [BUNDLE_METADATA_FILE]"
  show ?case
  proof (cases "present (on_disk w) ?f")
    case True
    then show ?thesis by (simp add: Let_def record_event_def)
  next
    case False
    from Cons.IH [of "record_event (Probe ?f) w"]
      Cons.IH [of "record_event (Probe ?f) \<lparr>on_disk = on_disk w, events = []\<rparr>"]
    show ?thesis using False by (simp add: Let_def record_event_def)
  qed
qed

lemma exists_local_events:
  "events (snd (exists_local ps w)) = events w @ exists_local_trace ps (on_disk w)"
  unfolding exists_local_trace_def exists_local_snd by (rule get_path_trace)

lemma get_path_last:
  "fst (get_path ps w) = Some p \<Longrightarrow>
     events (snd (get_path ps w)) \<noteq> []
     \<and> last (events (snd (get_path ps w))) = Probe (path_join p [BUNDLE_METADATA_FILE])"
proof (induction ps arbitrary: w)
  case Nil
  then show ?case by simp
next
  case (Cons a ps)
  then show ?case
    by (cases "present (on_disk w) (path_join a [BUNDLE_METADATA_FILE])")
       (auto simp: Let_def record_event_def)
qed

lemma exists_local_trace_last:
  assumes "fst (get_path ps w) = Some p"
  shows "exists_local_trace ps (on_disk w) \<noteq> []"
    and "last (exists_local_trace ps (on_disk w)) = Probe (path_join p [BUNDLE_METADATA_FILE])"
proof -
  let ?w0 = "\<lparr>on_disk = on_disk w, events = []\<rparr>"
  from assms have "fst (get_path ps ?w0) = Some p" by (simp add: get_path_first)
  from get_path_last [OF this]
  show "exists_local_trace ps (on_disk w) \<noteq> []"
    and "last (exists_local_trace ps (on_disk w)) = Probe (path_join p [BUNDLE_METADATA_FILE])"
    by (simp_all add: exists_local_trace_def exists_local_snd)
qed

lemma get_manifest_trace:
  assumes none: "manifest_data self = None"
    and found: "fst (get_path (cache_paths self) w) = Some p"
    and cont: "contents (on_disk w) (path_join p [BUNDLE_METADATA_FILE]) = Some file_data"
    and yaml: "yaml_load prov file_data = Inr metadata"
  shows "events (snd (snd (get_manifest prov self w)))
           = events w @ exists_local_trace (cache_paths self) (on_disk w)
               @ exists_local_trace (cache_paths self) (on_disk w)
               @ [Probe (path_join p [BUNDLE_METADATA_FILE]),
                  Load (path_join p [BUNDLE_METADATA_FILE])]"
proof -
  let ?ps = "cache_paths self" and ?f = "path_join p [BUNDLE_METADATA_FILE]"
  from found obtain w1 where g1: "get_path ?ps w = (Some p, w1)"
    by (cases "get_path ?ps w") simp
  then have w1: "w1 = snd (get_path ?ps w)" by simp
  have "fst (get_path ?ps w1) = Some p"
    using get_path_again [of ?ps w] found by (simp add: w1)
  then obtain w3 where g3: "get_path ?ps w1 = (Some p, w3)"
    by (cases "get_path ?ps w1") simp
  then have w3: "w3 = snd (get_path ?ps w1)" by simp
  from g1 have e: "exists_local ?ps w = (True, w1)" by (simp add: exists_local_def)
  have d1: "on_disk w1 = on_disk w" by (simp add: w1 get_path_disk)
  have d: "on_disk w3 = on_disk w" by (simp add: w3 w1 get_path_disk)
  from get_path_Some [OF found] have pr: "present (on_disk w) ?f" by blast
  have e1: "events w1 = events w @ exists_local_trace ?ps (on_disk w)"
    using exists_local_events [of ?ps w] by (simp add: exists_local_snd w1)
  have e3: "events w3 = events w1 @ exists_local_trace ?ps (on_disk w)"
    using exists_local_events [of ?ps w1] by (simp add: exists_local_snd w3 d1)
  show ?thesis
    using none d pr cont yaml e1 e3
    by (simp add: get_manifest_def e g3 Let_def record_event_def)
qed

lemma get_manifest_null_trace:
  assumes none: "manifest_data self = None"
    and found: "fst (get_path (cache_paths self) w) = Some p"
    and cont: "contents (on_disk w) (path_join p [BUNDLE_METADATA_FILE]) = Some file_data"
    and yaml: "yaml_load prov file_data = Inr None"
  shows "events (snd (snd (get_manifest_times n prov self w)))
           = events w
             @ concat (replicate n
                 (exists_local_trace (cache_paths self) (on_disk w)
                  @ exists_local_trace (cache_paths self) (on_disk w)
                  @ [Probe (path_join p [BUNDLE_METADATA_FILE]),
                     Load (path_join p [BUNDLE_METADATA_FILE])]))"
  using found cont
proof (induction n arbitrary: w)
  case 0
  then show ?case by simp
next
  case (Suc n)
  from none have same: "self\<lparr>manifest_data := None\<rparr> = self" by simp
  from get_manifest_loads [OF none Suc.prems yaml] same obtain w1 where
    w1: "get_manifest prov self w = (Inr None, self, w1)" "on_disk w1 = on_disk w"
    by auto
  from get_manifest_trace [OF none Suc.prems yaml] w1(1)
  have tr: "events w1 = events w @ exists_local_trace (cache_paths self) (on_disk w)
               @ exists_local_trace (cache_paths self) (on_disk w)
               @ [Probe (path_join p [BUNDLE_METADATA_FILE]),
                  Load (path_join p [BUNDLE_METADATA_FILE])]"
    by simp
  from Suc.prems w1(2) have "fst (get_path (cache_paths self) w1) = Some p"
    "contents (on_disk w1) (path_join p [BUNDLE_METADATA_FILE]) = Some file_data"
    by (simp_all add: get_path_first)
  from Suc.IH [OF this] w1(2)
  have ih: "events (snd (snd (get_manifest_times n prov self w1)))
              = events w1
                @ concat (replicate n
                    (exists_local_trace (cache_paths self) (on_disk w)
                     @ exists_local_trace (cache_paths self) (on_disk w)
                     @ [Probe (path_join p [BUNDLE_METADATA_FILE]),
                        Load (path_join p [BUNDLE_METADATA_FILE])]))"
    by simp
  obtain rs s2 w2 where t: "get_manifest_times n prov self w1 = (rs, s2, w2)"
    by (cases "get_manifest_times n prov self w1") auto
  with ih tr w1(1) show ?case by simp
qed

text \<open>
  Claim C10. \<^verbatim>\<open>None\<close> is what the attribute holds before a manifest is loaded, so a
  call that finds nothing cached and leaves something cached has returned that value,
  which is not \<^verbatim>\<open>None\<close>. When the metadata file parses to \<^verbatim>\<open>None\<close>, the call returns
  \<^verbatim>\<open>None\<close> and the instance is as before; and of any number of calls in a row each
  returns \<^verbatim>\<open>None\<close> and each does all the work again: the check of \<^verbatim>\<open>exists_local\<close>,
  which probes the cache paths up to the one of the bundle, the same probes for
  \<^verbatim>\<open>get_path\<close>, the check that the metadata file exists and the opening of the file,
  whose content is then parsed. Nothing else is recorded, so nothing is downloaded.
\<close>

theorem none_is_never_memoized:
  "(\<forall>r self' w'. manifest_data self = None \<and> get_manifest prov self w = (r, self', w')
       \<and> manifest_data self' \<noteq> None \<longrightarrow> r = Inr (manifest_data self'))
   \<and> (\<forall>p file_data n.
         manifest_data self = None
         \<and> fst (get_path (cache_paths self) w) = Some p
         \<and> contents (on_disk w) (path_join p [BUNDLE_METADATA_FILE]) = Some file_data
         \<and> yaml_load prov file_data = Inr None
         \<longrightarrow> (\<exists>w'. get_manifest_times n prov self w = (replicate n (Inr None), self, w')
                \<and> on_disk w' = on_disk w
                \<and> count_event (Load (path_join p [BUNDLE_METADATA_FILE])) w'
                    = count_event (Load (path_join p [BUNDLE_METADATA_FILE])) w + n
                \<and> events w'
                    = events w
                      @ concat (replicate n
                          (exists_local_trace (cache_paths self) (on_disk w)
                           @ exists_local_trace (cache_paths self) (on_disk w)
                           @ [Probe (path_join p [BUNDLE_METADATA_FILE]),
                              Load (path_join p [BUNDLE_METADATA_FILE])]))
                \<and> exists_local_trace (cache_paths self) (on_disk w) \<noteq> []
                \<and> last (exists_local_trace (cache_paths self) (on_disk w))
                    = Probe (path_join p [BUNDLE_METADATA_FILE])))"
proof (intro conjI allI impI)
  fix r self' w'
  assume a: "manifest_data self = None \<and> get_manifest prov self w = (r, self', w')
       \<and> manifest_data self' \<noteq> None"
  then have "get_manifest prov self w = (r, self', w')" by simp
  from get_manifest_cases [OF this] a show "r = Inr (manifest_data self')" by auto
next
  fix p file_data n
  assume a: "manifest_data self = None
         \<and> fst (get_path (cache_paths self) w) = Some p
         \<and> contents (on_disk w) (path_join p [BUNDLE_METADATA_FILE]) = Some file_data
         \<and> yaml_load prov file_data = Inr None"
  from a get_manifest_null_times [of self w p file_data prov n] obtain w' where
    w': "get_manifest_times n prov self w = (replicate n (Inr None), self, w')"
    "on_disk w' = on_disk w"
    "count_event (Load (path_join p [BUNDLE_METADATA_FILE])) w'
       = count_event (Load (path_join p [BUNDLE_METADATA_FILE])) w + n"
    by blast
  from a get_manifest_null_trace [of self w p file_data prov n] w'(1)
  have tr: "events w' = events w
                      @ concat (replicate n
                          (exists_local_trace (cache_paths self) (on_disk w)
                           @ exists_local_trace (cache_paths self) (on_disk w)
                           @ [Probe (path_join p [BUNDLE_METADATA_FILE]),
                              Load (path_join p [BUNDLE_METADATA_FILE])]))"
    by simp
  from a exists_local_trace_last [of "cache_paths self" w p]
  have "exists_local_trace (cache_paths self) (on_disk w) \<noteq> []"
    "last (exists_local_trace (cache_paths self) (on_disk w))
       = Probe (path_join p [BUNDLE_METADATA_FILE])"
    by simp_all
  with w' tr
  show "\<exists>w'. get_manifest_times n prov self w = (replicate n (Inr None), self, w')
                \<and> on_disk w' = on_disk w
                \<and> count_event (Load (path_join p [BUNDLE_METADATA_FILE])) w'
                    = count_event (Load (path_join p [BUNDLE_METADATA_FILE])) w + n
                \<and> events w'
                    = events w
                      @ concat (replicate n
                          (exists_local_trace (cache_paths self) (on_disk w)
                           @ exists_local_trace (cache_paths self) (on_disk w)
                           @ [Probe (path_join p [BUNDLE_METADATA_FILE]),
                              Load (path_join p [BUNDLE_METADATA_FILE])]))
                \<and> exists_local_trace (cache_paths self) (on_disk w) \<noteq> []
                \<and> last (exists_local_trace (cache_paths self) (on_disk w))
                    = Probe (path_join p [BUNDLE_METADATA_FILE])"
    by blast
qed

subsection \<open>An instance to try the claims on\<close>

text \<open>
  A provider whose download changes nothing and whose parser returns \<^verbatim>\<open>None\<close> for an
  empty file, raises on an opening brace and returns the text otherwise; the descriptor
  of the example before any manifest is loaded; a world whose only file is the
  metadata file under \<^verbatim>\<open>/F1/app/foo/v1.0.0\<close>, and a world without files.
\<close>

definition example_provider :: "string provider" where
  "example_provider =
     \<lparr>download_local = (\<lambda>d. (None, d)),
      yaml_load = (\<lambda>file_data. if file_data = [] then Inr None
                     else if take 1 file_data = ''{'' then Inl ''while parsing a flow mapping''
                     else Inr (Some file_data))\<rparr>"

definition example_descriptor :: "string descriptor" where
  "example_descriptor = \<lparr>cache_paths = example_cache_paths, manifest_data = None\<rparr>"

definition world_with :: "string \<Rightarrow> world" where
  "world_with file_data =
     \<lparr>on_disk = \<lparr>present = (\<lambda>p. p = ''/F1/app/foo/v1.0.0/info.yml''),
                  contents = (\<lambda>p. if p = ''/F1/app/foo/v1.0.0/info.yml'' then Some file_data else None)\<rparr>,
      events = []\<rparr>"

definition empty_world :: world where
  "empty_world = \<lparr>on_disk = \<lparr>present = (\<lambda>p. False), contents = (\<lambda>p. None)\<rparr>, events = []\<rparr>"

theorem manifest_memoized_witness:
  "fst (get_manifest example_provider example_descriptor (world_with ''configuration: {}''))
     = Inr (Some ''configuration: {}'')
   \<and> get_manifest example_provider
        (fst (snd (get_manifest example_provider example_descriptor (world_with ''configuration: {}''))))
        empty_world
      = (Inr (Some ''configuration: {}''),
         fst (snd (get_manifest example_provider example_descriptor (world_with ''configuration: {}''))),
         empty_world)"
proof -
  let ?first = "get_manifest example_provider example_descriptor (world_with ''configuration: {}'')"
  have a: "fst ?first = Inr (Some ''configuration: {}'')" by code_simp
  then have "?first = (Inr (Some ''configuration: {}''), fst (snd ?first), snd (snd ?first))"
    by (metis prod.collapse)
  from manifest_memoized [OF this] a show ?thesis by blast
qed

text \<open>
  The download of the example changes nothing, so in the world without files the bundle
  is absent before and after it; in the world whose metadata file holds an opening brace
  the parser raises.
\<close>

theorem absent_metadata_raises_attribute_error_witness:
  "manifest_data example_descriptor = None
   \<and> fst (ensure_local example_provider example_descriptor empty_world) = None
   \<and> fst (get_path (cache_paths example_descriptor)
            (snd (ensure_local example_provider example_descriptor empty_world))) = None
   \<and> fst (get_manifest example_provider example_descriptor empty_world) = Inl PyAttributeError
   \<and> fst (snd (get_manifest example_provider example_descriptor empty_world)) = example_descriptor
   \<and> count_event Download (snd (snd (get_manifest example_provider example_descriptor empty_world)))
       = 1
   \<and> fst (get_manifest example_provider example_descriptor (world_with ''{''))
       = Inl (MetadataUnreadable ''/F1/app/foo/v1.0.0/info.yml'')
   \<and> fst (snd (get_manifest example_provider example_descriptor (world_with ''{'')))
       = example_descriptor
   \<and> manifest_data (fst (snd (get_manifest example_provider example_descriptor (world_with ''{''))))
       = None"
proof -
  have h: "manifest_data example_descriptor = None"
    "fst (ensure_local example_provider example_descriptor empty_world) = None"
    "fst (get_path (cache_paths example_descriptor)
            (snd (ensure_local example_provider example_descriptor empty_world))) = None"
    by code_simp+
  have d: "count_event Download
             (snd (get_path (cache_paths example_descriptor)
                (snd (ensure_local example_provider example_descriptor empty_world)))) = 1"
    by code_simp
  from absent_metadata_raises_attribute_error
         [of example_provider example_descriptor empty_world] h
  have absent: "get_manifest example_provider example_descriptor empty_world
          = (Inl PyAttributeError, example_descriptor,
             snd (get_path (cache_paths example_descriptor)
                (snd (ensure_local example_provider example_descriptor empty_world))))"
    by blast
  let ?call = "get_manifest example_provider example_descriptor (world_with ''{'')"
  have a: "fst ?call = Inl (MetadataUnreadable ''/F1/app/foo/v1.0.0/info.yml'')" by code_simp
  then have "?call = (Inl (MetadataUnreadable ''/F1/app/foo/v1.0.0/info.yml''), fst (snd ?call), snd (snd ?call))"
    by (metis prod.collapse)
  with absent_metadata_raises_attribute_error
         [of example_provider example_descriptor "world_with ''{''"]
  have "fst (snd ?call) = example_descriptor" "manifest_data (fst (snd ?call)) = None"
    by blast+
  with absent h d a show ?thesis by simp
qed

theorem ensure_local_idempotent_witness:
  "fst (exists_local (cache_paths example_descriptor) (world_with ''configuration: {}''))
   \<and> count_event Download
        (ensure_local_times 3 example_provider example_descriptor (world_with ''configuration: {}''))
       = 0"
proof -
  have a: "fst (exists_local (cache_paths example_descriptor) (world_with ''configuration: {}''))"
    by code_simp
  have b: "count_event Download (world_with ''configuration: {}'') = 0" by code_simp
  from ensure_local_idempotent [OF a, of example_provider] a b show ?thesis by simp
qed

theorem none_is_never_memoized_witness:
  "manifest_data example_descriptor = None
   \<and> fst (get_path (cache_paths example_descriptor) (world_with [])) = Some ''/F1/app/foo/v1.0.0''
   \<and> contents (on_disk (world_with [])) (path_join ''/F1/app/foo/v1.0.0'' [BUNDLE_METADATA_FILE]) = Some []
   \<and> yaml_load example_provider [] = Inr None
   \<and> (\<exists>w'. get_manifest_times 2 example_provider example_descriptor (world_with [])
              = ([Inr None, Inr None], example_descriptor, w')
            \<and> count_event (Load (path_join ''/F1/app/foo/v1.0.0'' [BUNDLE_METADATA_FILE])) w' = 2
            \<and> events w'
                = [Probe ''/P/app/foo/v1.0.0/info.yml'', Probe ''/P/apps/app/foo/v1.0.0/info.yml'',
                   Probe ''/F1/app/foo/v1.0.0/info.yml'',
                   Probe ''/P/app/foo/v1.0.0/info.yml'', Probe ''/P/apps/app/foo/v1.0.0/info.yml'',
                   Probe ''/F1/app/foo/v1.0.0/info.yml'',
                   Probe ''/F1/app/foo/v1.0.0/info.yml'', Load ''/F1/app/foo/v1.0.0/info.yml'',
                   Probe ''/P/app/foo/v1.0.0/info.yml'', Probe ''/P/apps/app/foo/v1.0.0/info.yml'',
                   Probe ''/F1/app/foo/v1.0.0/info.yml'',
                   Probe ''/P/app/foo/v1.0.0/info.yml'', Probe ''/P/apps/app/foo/v1.0.0/info.yml'',
                   Probe ''/F1/app/foo/v1.0.0/info.yml'',
                   Probe ''/F1/app/foo/v1.0.0/info.yml'', Load ''/F1/app/foo/v1.0.0/info.yml''])"
proof -
  have h: "manifest_data example_descriptor = None"
    "fst (get_path (cache_paths example_descriptor) (world_with [])) = Some ''/F1/app/foo/v1.0.0''"
    "contents (on_disk (world_with [])) (path_join ''/F1/app/foo/v1.0.0'' [BUNDLE_METADATA_FILE]) = Some []"
    "yaml_load example_provider [] = Inr None"
    by code_simp+
  have c: "count_event (Load (path_join ''/F1/app/foo/v1.0.0'' [BUNDLE_METADATA_FILE])) (world_with []) = 0"
    by code_simp
  have r: "replicate 2 (Inr None) = [Inr None, Inr None]" by (simp add: numeral_2_eq_2)
  have t: "events (world_with [])
           @ concat (replicate 2
               (exists_local_trace (cache_paths example_descriptor) (on_disk (world_with []))
                @ exists_local_trace (cache_paths example_descriptor) (on_disk (world_with []))
                @ [Probe (path_join ''/F1/app/foo/v1.0.0'' [BUNDLE_METADATA_FILE]),
                   Load (path_join ''/F1/app/foo/v1.0.0'' [BUNDLE_METADATA_FILE])]))
           = [Probe ''/P/app/foo/v1.0.0/info.yml'', Probe ''/P/apps/app/foo/v1.0.0/info.yml'',
                   Probe ''/F1/app/foo/v1.0.0/info.yml'',
                   Probe ''/P/app/foo/v1.0.0/info.yml'', Probe ''/P/apps/app/foo/v1.0.0/info.yml'',
                   Probe ''/F1/app/foo/v1.0.0/info.yml'',
                   Probe ''/F1/app/foo/v1.0.0/info.yml'', Load ''/F1/app/foo/v1.0.0/info.yml'',
                   Probe ''/P/app/foo/v1.0.0/info.yml'', Probe ''/P/apps/app/foo/v1.0.0/info.yml'',
                   Probe ''/F1/app/foo/v1.0.0/info.yml'',
                   Probe ''/P/app/foo/v1.0.0/info.yml'', Probe ''/P/apps/app/foo/v1.0.0/info.yml'',
                   Probe ''/F1/app/foo/v1.0.0/info.yml'',
                   Probe ''/F1/app/foo/v1.0.0/info.yml'', Load ''/F1/app/foo/v1.0.0/info.yml'']"
    by code_simp
  from none_is_never_memoized [of example_descriptor example_provider "world_with []"] h
  obtain w' where "get_manifest_times 2 example_provider example_descriptor (world_with [])
              = (replicate 2 (Inr None), example_descriptor, w')"
    "count_event (Load (path_join ''/F1/app/foo/v1.0.0'' [BUNDLE_METADATA_FILE])) w'
       = count_event (Load (path_join ''/F1/app/foo/v1.0.0'' [BUNDLE_METADATA_FILE])) (world_with []) + 2"
    "events w' = events (world_with [])
           @ concat (replicate 2
               (exists_local_trace (cache_paths example_descriptor) (on_disk (world_with []))
                @ exists_local_trace (cache_paths example_descriptor) (on_disk (world_with []))
                @ [Probe (path_join ''/F1/app/foo/v1.0.0'' [BUNDLE_METADATA_FILE]),
                   Load (path_join ''/F1/app/foo/v1.0.0'' [BUNDLE_METADATA_FILE])]))"
    by blast
  with h c r t show ?thesis by (intro conjI exI [of _ w']) simp_all
qed

section \<open>The identity codec\<close>

text \<open>
  Modelled from the spec: the three constants of the URI, whose module is not among the
  source files. The specification writes the URI as \<^verbatim>\<open>scheme:descriptor:<type>?...\<close>;
  the docstrings and the messages of \<^verbatim>\<open>dict_from_uri\<close> and \<^verbatim>\<open>uri_from_dict\<close> give the
  scheme: \<^verbatim>\<open>sgtk:descriptor:app_store?name=hello&version=v123\<close>.
\<close>

definition DESCRIPTOR_URI_PATH_SCHEME :: string where
  "DESCRIPTOR_URI_PATH_SCHEME = ''sgtk''"

definition DESCRIPTOR_URI_PATH_PREFIX :: string where
  "DESCRIPTOR_URI_PATH_PREFIX = ''descriptor''"

definition DESCRIPTOR_URI_SEPARATOR :: char where
  "DESCRIPTOR_URI_SEPARATOR = CHR '':''"

text \<open>
  A dictionary of strings is a list of pairs with no key twice, in the order in which the
  dictionary is iterated; two dictionaries are equal when they map the same keys to the
  same values (\<open>map_of\<close>).
\<close>

type_synonym identity = "(string \<times> string) list"

definition uri_from_dict :: "identity \<Rightarrow> error + string" where
  "uri_from_dict descriptor_dict =
     (case map_of descriptor_dict ''type'' of
        None \<Rightarrow> Inl (MalformedDescriptor ''Cannot create uri - missing type field'')
      | Some type_value \<Rightarrow>
          let uri_chunks = [DESCRIPTOR_URI_PATH_SCHEME, DESCRIPTOR_URI_PATH_PREFIX, type_value];
              uri = join [DESCRIPTOR_URI_SEPARATOR] uri_chunks;
              qs_chunks = map (\<lambda>(param, value). param @ ''='' @ value)
                            (filter (\<lambda>(param, value). param \<noteq> ''type'') descriptor_dict);
              qs = join ''&'' qs_chunks
          in Inr (uri @ ''?'' @ qs))"

subsection \<open>The library functions \<open>dict_from_uri\<close> calls\<close>

text \<open>\<^verbatim>\<open>s.split(c, 1)\<close> when \<^verbatim>\<open>c\<close> occurs in \<^verbatim>\<open>s\<close>: what stands before and after the first.\<close>

definition split_once :: "char \<Rightarrow> string \<Rightarrow> (string \<times> string) option" where
  "split_once c s =
     (if c \<in> set s then Some (takeWhile (\<lambda>x. x \<noteq> c) s, drop 1 (dropWhile (\<lambda>x. x \<noteq> c) s))
      else None)"

record parse_result =
  scheme :: string
  netloc :: string
  path :: string
  query :: string
  fragment :: string

definition scheme_chars :: string where
  "scheme_chars = ''abcdefghijklmnopqrstuvwxyzABCDEFGHIJKLMNOPQRSTUVWXYZ0123456789+-.''"

definition to_lower :: "char \<Rightarrow> char" where
  "to_lower c = (if c \<in> set ''ABCDEFGHIJKLMNOPQRSTUVWXYZ'' then char_of (of_char c + (32::nat)) else c)"

text \<open>
  \<^verbatim>\<open>urlparse.urlparse(url)\<close>. A scheme is what stands before the first colon when it is
  not empty, is made of scheme characters and is not followed by a port number. After
  it, a network location is split off behind two slashes (with the check of its
  brackets), then the fragment behind the first \<^verbatim>\<open>#\<close>, then the query behind the first
  \<^verbatim>\<open>?\<close>. The parameters behind a semicolon are split off for some schemes only, not for
  the descriptor scheme, and the code does not read them. The comment in
  \<^verbatim>\<open>dict_from_uri\<close> tells of Python versions that leave everything behind the scheme
  in the path; \<open>query_in_path\<close> says that the library is one of those.
\<close>

definition urlparse :: "bool \<Rightarrow> string \<Rightarrow> error + parse_result" where
  "urlparse query_in_path url =
     (let (scheme0, url1) =
            (case split_once CHR '':'' url of
               None \<Rightarrow> ([], url)
             | Some (front, rest) \<Rightarrow>
                 if front \<noteq> [] \<and> list_all (\<lambda>c. c \<in> set scheme_chars) front
                    \<and> (query_in_path \<or> rest = [] \<or> \<not> list_all is_digit rest)
                 then (map to_lower front, rest)
                 else ([], url))
      in if query_in_path
         then Inr \<lparr>scheme = scheme0, netloc = [], path = url1, query = [], fragment = []\<rparr>
         else
           let (netloc0, url2) =
                 (if take 2 url1 = ''//''
                  then (takeWhile (\<lambda>c. c \<notin> set ''/?#'') (drop 2 url1),
                        dropWhile (\<lambda>c. c \<notin> set ''/?#'') (drop 2 url1))
                  else ([], url1))
           in if (CHR ''['' \<in> set netloc0 \<and> CHR '']'' \<notin> set netloc0)
                 \<or> (CHR '']'' \<in> set netloc0 \<and> CHR ''['' \<notin> set netloc0)
              then Inl PyValueError
              else
                let (url3, fragment0) =
                      (case split_once CHR ''#'' url2 of None \<Rightarrow> (url2, []) | Some p \<Rightarrow> p);
                    (url4, query0) =
                      (case split_once CHR ''?'' url3 of None \<Rightarrow> (url3, []) | Some p \<Rightarrow> p)
                in Inr \<lparr>scheme = scheme0, netloc = netloc0, path = url4, query = query0,
                         fragment = fragment0\<rparr>)"

definition hex_val :: "char \<Rightarrow> nat option" where
  "hex_val c =
     (if c \<in> set ''0123456789'' then Some (of_char c - 48)
      else if c \<in> set ''abcdef'' then Some (of_char c - 87)
      else if c \<in> set ''ABCDEF'' then Some (of_char c - 55)
      else None)"

text \<open>
  \<^verbatim>\<open>urllib.unquote(s)\<close>: the string is cut at every per cent sign; a piece that begins
  with two hexadecimal digits has them replaced by the character they number, any other
  piece keeps its per cent sign.
\<close>

definition unquote_item :: "string \<Rightarrow> string" where
  "unquote_item item =
     (case item of
        a # b # rest \<Rightarrow>
          (case (hex_val a, hex_val b) of
             (Some x, Some y) \<Rightarrow> char_of (16 * x + y) # rest
           | _ \<Rightarrow> CHR ''%'' # item)
      | _ \<Rightarrow> CHR ''%'' # item)"

definition unquote :: "string \<Rightarrow> string" where
  "unquote s = hd (split_on CHR ''%'' s) @ concat (map unquote_item (tl (split_on CHR ''%'' s)))"

definition plus_to_space :: "string \<Rightarrow> string" where
  "plus_to_space s = map (\<lambda>c. if c = CHR ''+'' then CHR '' '' else c) s"

text \<open>
  \<^verbatim>\<open>urlparse.parse_qsl(qs)\<close> with blank values dropped and no strict parsing, as
  \<^verbatim>\<open>cgi.parse_qs(query)\<close> calls it: the fields stand between ampersands and between
  semicolons; a field that is empty, has no equals sign or has nothing behind its first
  equals sign is skipped; in name and value a plus sign becomes a blank before the per
  cent escapes are resolved.
\<close>

definition parse_qsl :: "string \<Rightarrow> (string \<times> string) list" where
  "parse_qsl qs =
     concat (map (\<lambda>name_value.
                    if name_value = [] then []
                    else case split_once CHR ''='' name_value of
                           None \<Rightarrow> []
                         | Some (n, v) \<Rightarrow>
                             if v \<noteq> [] then [(unquote (plus_to_space n), unquote (plus_to_space v))]
                             else [])
                 (concat (map (split_on CHR '';'') (split_on CHR ''&'' qs))))"

text \<open>\<^verbatim>\<open>parse_qs\<close>: the values of each name, in the order of their fields.\<close>

definition parse_qs :: "string \<Rightarrow> (string \<times> string list) list" where
  "parse_qs qs =
     foldl (\<lambda>dict (name, value).
              case map_of dict name of
                Some values \<Rightarrow> AList.update name (values @ [value]) dict
              | None \<Rightarrow> dict @ [(name, [value])])
           [] (parse_qsl qs)"

subsection \<open>\<open>dict_from_uri\<close>\<close>

text \<open>
  \<^verbatim>\<open>
  for (param, value) in cgi.parse_qs(query).iteritems():
      if len(value) > 1:
          raise TankDescriptorError("Invalid uri '%s' - duplicate parameters" % uri)
      descriptor_dict[param] = value[0]
  \<close>
\<close>

fun fill_descriptor_dict :: "identity \<Rightarrow> (string \<times> string list) list \<Rightarrow> error + identity" where
  "fill_descriptor_dict descriptor_dict [] = Inr descriptor_dict"
| "fill_descriptor_dict descriptor_dict ((param, value) # items) =
     (if length value > 1 then Inl (MalformedDescriptor ''Invalid uri - duplicate parameters'')
      else case value of
             [] \<Rightarrow> Inl PyIndexError
           | v # _ \<Rightarrow> fill_descriptor_dict (AList.update param v descriptor_dict) items)"

definition dict_from_uri :: "bool \<Rightarrow> string \<Rightarrow> error + identity" where
  "dict_from_uri query_in_path uri =
     (case urlparse query_in_path uri of
        Inl e \<Rightarrow> Inl e
      | Inr parsed_uri \<Rightarrow>
          if scheme parsed_uri \<noteq> DESCRIPTOR_URI_PATH_SCHEME
          then Inl (MalformedDescriptor ''Invalid uri - must begin with sgtk'')
          else
            case (if query parsed_uri = []
                  then (case split_on CHR ''?'' (path parsed_uri) of
                          [p, q] \<Rightarrow> Inr (p, q)
                        | _ \<Rightarrow> Inl PyValueError)
                  else Inr (path parsed_uri, query parsed_uri)) of
              Inl e \<Rightarrow> Inl e
            | Inr (path', query') \<Rightarrow>
                let split_path = split_on DESCRIPTOR_URI_SEPARATOR path' in
                if length split_path \<noteq> 2 \<or> split_path ! 0 \<noteq> DESCRIPTOR_URI_PATH_PREFIX
                then Inl (MalformedDescriptor ''Invalid uri - must begin with sgtk:descriptor'')
                else fill_descriptor_dict [(''type'', split_path ! 1)] (parse_qs query'))"

subsection \<open>Strings that neither side of the codec touches\<close>

text \<open>A string is free of a set of characters when none of them occurs in it.\<close>

definition free_of :: "string \<Rightarrow> string \<Rightarrow> bool" where
  "free_of bad s = list_all (\<lambda>c. c \<notin> set bad) s"

lemma split_on_notin: "c \<notin> set s \<Longrightarrow> split_on c s = [s]"
  by (induction s) auto

lemma split_on_append: "c \<notin> set a \<Longrightarrow> split_on c (a @ c # b) = a # split_on c b"
  by (induction a) auto

lemma split_on_join:
  "xs \<noteq> [] \<Longrightarrow> \<forall>x \<in> set xs. c \<notin> set x \<Longrightarrow> split_on c (join [c] xs) = xs"
proof (induction "[c]" xs rule: join.induct)
  case 1
  then show ?case by simp
next
  case (2 x)
  then show ?case by (simp add: split_on_notin)
next
  case (3 x y ys)
  then show ?case by (simp add: split_on_append)
qed

lemma set_join: "set (join sep xs) \<subseteq> set sep \<union> \<Union> (set ` set xs)"
  by (induction sep xs rule: join.induct) auto

lemma split_once_append: "c \<notin> set a \<Longrightarrow> split_once c (a @ c # b) = Some (a, b)"
  by (induction a) (auto simp: split_once_def)

lemma split_once_notin: "c \<notin> set s \<Longrightarrow> split_once c s = None"
  by (simp add: split_once_def)

lemma unquote_plain: "CHR ''%'' \<notin> set s \<Longrightarrow> unquote s = s"
  by (simp add: unquote_def split_on_notin)

lemma plus_to_space_plain: "CHR ''+'' \<notin> set s \<Longrightarrow> plus_to_space s = s"
  by (induction s) (auto simp: plus_to_space_def)

lemma free_of_iff: "free_of bad s = (\<forall>c \<in> set bad. c \<notin> set s)"
  by (auto simp: free_of_def list_all_iff)

text \<open>
  The piece of the query string that \<^verbatim>\<open>uri_from_dict\<close> writes for one key, and the keys
  and values that come back from \<^verbatim>\<open>cgi.parse_qs\<close> as they went in: the key without
  ampersand, semicolon, equals sign, plus sign, per cent sign, hash and question mark, the
  value not empty and without those but the equals sign.
\<close>

definition query_chunk :: "string \<times> string \<Rightarrow> string" where
  "query_chunk = (\<lambda>(param, value). param @ ''='' @ value)"

definition plain_item :: "string \<times> string \<Rightarrow> bool" where
  "plain_item = (\<lambda>(param, value).
     free_of ''&;=+%#?'' param \<and> value \<noteq> [] \<and> free_of ''&;+%#?'' value)"

lemma chunk_chars:
  assumes "plain_item kv"
  shows "query_chunk kv \<noteq> []"
    and "CHR ''&'' \<notin> set (query_chunk kv)" and "CHR '';'' \<notin> set (query_chunk kv)"
    and "CHR ''#'' \<notin> set (query_chunk kv)" and "CHR ''?'' \<notin> set (query_chunk kv)"
  using assms by (cases kv; simp add: plain_item_def query_chunk_def free_of_iff)+

lemma chunk_field:
  assumes "plain_item (k, v)"
  shows "(if query_chunk (k, v) = [] then []
          else case split_once CHR ''='' (query_chunk (k, v)) of
                 None \<Rightarrow> []
               | Some (n, v') \<Rightarrow>
                   if v' \<noteq> [] then [(unquote (plus_to_space n), unquote (plus_to_space v'))]
                   else []) = [(k, v)]"
proof -
  from assms have k: "CHR ''='' \<notin> set k" "CHR ''+'' \<notin> set k" "CHR ''%'' \<notin> set k"
    and v: "v \<noteq> []" "CHR ''+'' \<notin> set v" "CHR ''%'' \<notin> set v"
    by (simp_all add: plain_item_def free_of_iff)
  have "split_once CHR ''='' (k @ CHR ''='' # v) = Some (k, v)"
    using k(1) by (rule split_once_append)
  with k v show ?thesis
    by (simp add: query_chunk_def unquote_plain plus_to_space_plain)
qed

lemma parse_qsl_fields:
  "list_all plain_item items \<Longrightarrow>
   concat (map (\<lambda>name_value.
                    if name_value = [] then []
                    else case split_once CHR ''='' name_value of
                           None \<Rightarrow> []
                         | Some (n, v) \<Rightarrow>
                             if v \<noteq> [] then [(unquote (plus_to_space n), unquote (plus_to_space v))]
                             else [])
                 (map query_chunk items)) = items"
proof (induction items)
  case Nil
  then show ?case by simp
next
  case (Cons kv items)
  obtain k v where kv: "kv = (k, v)" by (cases kv)
  with Cons.prems have "plain_item (k, v)" by simp
  from chunk_field [OF this] Cons kv show ?case by simp
qed

lemma parse_qsl_join:
  assumes "items \<noteq> []" and "list_all plain_item items"
  shows "parse_qsl (join ''&'' (map query_chunk items)) = items"
proof -
  let ?chunks = "map query_chunk items"
  from assms(2) have amp: "\<forall>x \<in> set ?chunks. CHR ''&'' \<notin> set x"
    and semi: "\<forall>x \<in> set ?chunks. CHR '';'' \<notin> set x"
    by (auto simp: list_all_iff dest: chunk_chars)
  from assms(1) amp have 1: "split_on CHR ''&'' (join ''&'' ?chunks) = ?chunks"
    using split_on_join [of ?chunks "CHR ''&''"] by simp
  from semi have 2: "concat (map (split_on CHR '';'') ?chunks) = ?chunks"
    by (induction items) (simp_all add: split_on_notin)
  show ?thesis
    unfolding parse_qsl_def 1 2 using assms(2) by (rule parse_qsl_fields)
qed

lemma parse_qs_step:
  "distinct (map fst items) \<Longrightarrow> fst ` set items \<inter> fst ` set dict = {} \<Longrightarrow>
   foldl (\<lambda>dict (name, value).
              case map_of dict name of
                Some values \<Rightarrow> AList.update name (values @ [value]) dict
              | None \<Rightarrow> dict @ [(name, [value])])
         dict items
   = dict @ map (\<lambda>(k, v). (k, [v])) items"
proof (induction items arbitrary: dict)
  case Nil
  then show ?case by simp
next
  case (Cons kv items)
  obtain k v where kv: "kv = (k, v)" by (cases kv)
  with Cons.prems have none: "map_of dict k = None"
    by (auto simp: map_of_eq_None_iff)
  from Cons.prems kv have "fst ` set items \<inter> fst ` set (dict @ [(k, [v])]) = {}"
    by auto
  with Cons.IH [of "dict @ [(k, [v])]"] Cons.prems kv none show ?case by simp
qed

lemma fill_singletons:
  "fill_descriptor_dict acc (map (\<lambda>(k, v). (k, [v])) items)
     = Inr (fold (\<lambda>(k, v). AList.update k v) items acc)"
  by (induction items arbitrary: acc) auto

lemma map_of_fold_update:
  "distinct (map fst items) \<Longrightarrow>
   map_of (fold (\<lambda>(k, v). AList.update k v) items acc) = map_of acc ++ map_of items"
proof (induction items arbitrary: acc)
  case Nil
  then show ?case by simp
next
  case (Cons kv items)
  obtain k v where kv: "kv = (k, v)" by (cases kv)
  with Cons.prems have k: "k \<notin> dom (map_of items)" by (auto simp: dom_map_of_conv_image_fst)
  have "map_of (fold (\<lambda>(k, v). AList.update k v) (kv # items) acc)
          = map_of (AList.update k v acc) ++ map_of items"
    using Cons.IH [of "AList.update k v acc"] Cons.prems kv by simp
  also have "\<dots> = (map_of acc)(k \<mapsto> v) ++ map_of items"
    by (simp only: update_conv')
  also have "\<dots> = (map_of acc ++ map_of items)(k \<mapsto> v)"
    using k by (rule map_add_upd_left)
  also have "\<dots> = map_of acc ++ (map_of items)(k \<mapsto> v)"
    by (simp only: map_add_upd)
  also have "\<dots> = map_of acc ++ map_of (kv # items)"
    by (simp only: kv map_of.simps fst_conv snd_conv)
  finally show ?case .
qed

lemma map_of_without_type:
  "map_of (filter (\<lambda>(param, value). param \<noteq> ''type'') d) k
     = (if k = ''type'' then None else map_of d k)"
  by (induction d) auto

lemma uri_from_dict_shape:
  assumes "map_of identity ''type'' = Some type_value"
  shows "uri_from_dict identity
           = Inr (''sgtk:descriptor:'' @ type_value @ ''?''
                  @ join ''&'' (map query_chunk
                       (filter (\<lambda>(param, value). param \<noteq> ''type'') identity)))"
  using assms
  by (simp add: uri_from_dict_def DESCRIPTOR_URI_PATH_SCHEME_def DESCRIPTOR_URI_PATH_PREFIX_def
        DESCRIPTOR_URI_SEPARATOR_def query_chunk_def)

lemma query_chars:
  assumes "list_all plain_item items"
  shows "CHR ''#'' \<notin> set (join ''&'' (map query_chunk items))"
    and "CHR ''?'' \<notin> set (join ''&'' (map query_chunk items))"
proof -
  have "c \<notin> set (join ''&'' (map query_chunk items))"
    if "c \<noteq> CHR ''&''" "\<forall>kv. plain_item kv \<longrightarrow> c \<notin> set (query_chunk kv)" for c
    using set_join [of "''&''" "map query_chunk items"] assms that
    by (auto simp: list_all_iff)
  then show "CHR ''#'' \<notin> set (join ''&'' (map query_chunk items))"
    and "CHR ''?'' \<notin> set (join ''&'' (map query_chunk items))"
    by (auto dest: chunk_chars)
qed

lemma query_nonempty:
  assumes "items \<noteq> []" and "list_all plain_item items"
  shows "join ''&'' (map query_chunk items) \<noteq> []"
proof -
  from assms obtain kv rest where items: "items = kv # rest" and kv: "plain_item kv"
    by (cases items) auto
  from kv have "query_chunk kv \<noteq> []" by (rule chunk_chars)
  then show ?thesis unfolding items by (cases rest) simp_all
qed

lemma urlparse_descriptor:
  assumes ty: "free_of '':?#'' type_value"
    and qs: "CHR ''#'' \<notin> set qs" "CHR ''?'' \<notin> set qs"
  shows "urlparse False (''sgtk:descriptor:'' @ type_value @ ''?'' @ qs)
           = Inr \<lparr>scheme = ''sgtk'', netloc = [], path = ''descriptor:'' @ type_value,
                   query = qs, fragment = []\<rparr>"
    and "urlparse True (''sgtk:descriptor:'' @ type_value @ ''?'' @ qs)
           = Inr \<lparr>scheme = ''sgtk'', netloc = [], path = ''descriptor:'' @ type_value @ ''?'' @ qs,
                   query = [], fragment = []\<rparr>"
proof -
  let ?rest = "''descriptor:'' @ type_value @ ''?'' @ qs"
  have colon: "split_once CHR '':'' (''sgtk'' @ CHR '':'' # ?rest) = Some (''sgtk'', ?rest)"
    by (rule split_once_append) simp
  have sch: "list_all (\<lambda>c. c \<in> set scheme_chars) ''sgtk''" "map to_lower ''sgtk'' = ''sgtk''"
    by (simp_all add: scheme_chars_def to_lower_def)
  have nd: "\<not> list_all is_digit ?rest" "take 2 ?rest \<noteq> ''//''" by (simp_all add: is_digit_def)
  from ty qs have "CHR ''#'' \<notin> set ?rest" by (simp add: free_of_iff)
  then have hash: "split_once CHR ''#'' ?rest = None" by (rule split_once_notin)
  from ty have "CHR ''?'' \<notin> set (''descriptor:'' @ type_value)" by (simp add: free_of_iff)
  then have "split_once CHR ''?'' ((''descriptor:'' @ type_value) @ CHR ''?'' # qs)
               = Some (''descriptor:'' @ type_value, qs)"
    by (rule split_once_append)
  then have q: "split_once CHR ''?'' ?rest = Some (''descriptor:'' @ type_value, qs)" by simp
  have u: "''sgtk:descriptor:'' @ type_value @ ''?'' @ qs = ''sgtk'' @ CHR '':'' # ?rest" by simp
  show "urlparse False (''sgtk:descriptor:'' @ type_value @ ''?'' @ qs)
           = Inr \<lparr>scheme = ''sgtk'', netloc = [], path = ''descriptor:'' @ type_value,
                   query = qs, fragment = []\<rparr>"
    unfolding u urlparse_def colon using sch nd hash q by (simp del: append.simps)
  show "urlparse True (''sgtk:descriptor:'' @ type_value @ ''?'' @ qs)
           = Inr \<lparr>scheme = ''sgtk'', netloc = [], path = ''descriptor:'' @ type_value @ ''?'' @ qs,
                   query = [], fragment = []\<rparr>"
    unfolding u urlparse_def colon using sch by (simp del: append.simps)
qed

lemma dict_from_uri_descriptor:
  assumes ty: "free_of '':?#'' type_value"
    and qs: "CHR ''#'' \<notin> set qs" "CHR ''?'' \<notin> set qs" "qs \<noteq> []"
  shows "dict_from_uri query_in_path (''sgtk:descriptor:'' @ type_value @ ''?'' @ qs)
           = fill_descriptor_dict [(''type'', type_value)] (parse_qs qs)"
proof -
  from ty have "CHR ''?'' \<notin> set (''descriptor:'' @ type_value)" by (simp add: free_of_iff)
  then have "split_on CHR ''?'' ((''descriptor:'' @ type_value) @ CHR ''?'' # qs)
               = (''descriptor:'' @ type_value) # split_on CHR ''?'' qs"
    by (rule split_on_append)
  with qs(2) have q: "split_on CHR ''?'' (''descriptor:'' @ type_value @ ''?'' @ qs)
               = [''descriptor:'' @ type_value, qs]"
    by (simp add: split_on_notin)
  from ty have "CHR '':'' \<notin> set type_value" by (simp add: free_of_iff)
  then have "split_on CHR '':'' (''descriptor'' @ CHR '':'' # type_value) = [''descriptor'', type_value]"
    by (simp add: split_on_append split_on_notin del: append.simps)
  then have c: "split_on CHR '':'' (''descriptor:'' @ type_value) = [''descriptor'', type_value]"
    by simp
  show ?thesis
  proof (cases query_in_path)
    case True
    with urlparse_descriptor(2) [OF ty qs(1,2)] q c show ?thesis
      by (simp add: dict_from_uri_def DESCRIPTOR_URI_PATH_SCHEME_def
            DESCRIPTOR_URI_PATH_PREFIX_def DESCRIPTOR_URI_SEPARATOR_def del: append.simps)
  next
    case False
    with urlparse_descriptor(1) [OF ty qs(1,2)] qs(3) c show ?thesis
      by (simp add: dict_from_uri_def DESCRIPTOR_URI_PATH_SCHEME_def
            DESCRIPTOR_URI_PATH_PREFIX_def DESCRIPTOR_URI_SEPARATOR_def del: append.simps)
  qed
qed

section \<open>Claims about the identity codec\<close>

text \<open>
  Claim C4, as amended. Take an identity with a \<^verbatim>\<open>type\<close> key and at least one other key,
  whose type contains no colon, question mark or hash, whose other keys contain none of
  \<^verbatim>\<open>& ; = + % # ?\<close> and whose other values are not empty and contain none of
  \<^verbatim>\<open>& ; + % # ?\<close>. Then \<open>uri_from_dict\<close> returns a URI, \<open>dict_from_uri\<close> accepts it
  and returns a dictionary equal to the identity, with a library of either kind.
\<close>

theorem uri_round_trip:
  assumes "distinct (map fst identity)"
    and "map_of identity ''type'' = Some type_value"
    and "free_of '':?#'' type_value"
    and "filter (\<lambda>(param, value). param \<noteq> ''type'') identity \<noteq> []"
    and "list_all plain_item (filter (\<lambda>(param, value). param \<noteq> ''type'') identity)"
  shows "\<exists>uri descriptor_dict.
           uri_from_dict identity = Inr uri
           \<and> dict_from_uri query_in_path uri = Inr descriptor_dict
           \<and> map_of descriptor_dict = map_of identity"
proof -
  let ?items = "filter (\<lambda>(param, value). param \<noteq> ''type'') identity"
  let ?qs = "join ''&'' (map query_chunk ?items)"
  let ?uri = "''sgtk:descriptor:'' @ type_value @ ''?'' @ ?qs"
  let ?dict = "fold (\<lambda>(k, v). AList.update k v) ?items [(''type'', type_value)]"
  from assms(1) have dist: "distinct (map fst ?items)" by (rule distinct_map_filter)
  have uri: "uri_from_dict identity = Inr ?uri"
    using assms(2) by (rule uri_from_dict_shape)
  have "parse_qs ?qs = map (\<lambda>(k, v). (k, [v])) ?items"
    unfolding parse_qs_def parse_qsl_join [OF assms(4,5)]
    using parse_qs_step [OF dist, of "[]"] by simp
  then have "dict_from_uri query_in_path ?uri = Inr ?dict"
    using dict_from_uri_descriptor [OF assms(3) query_chars [OF assms(5)] query_nonempty [OF assms(4,5)]]
    by (simp add: fill_singletons)
  moreover have "map_of ?dict = map_of identity"
  proof
    fix k
    show "map_of ?dict k = map_of identity k"
      using assms(2)
      by (simp add: map_of_fold_update [OF dist] map_add_def map_of_without_type
               split: option.splits)
  qed
  ultimately show ?thesis using uri by blast
qed

text \<open>
  The claim as it was written asks of the values only that they have no ampersand and no
  equals sign. It fails for a value with a plus sign, which comes back as a blank; for an
  identity with no key but \<^verbatim>\<open>type\<close>, whose URI ends in an empty query that the unpacking
  of \<^verbatim>\<open>path.split("?")\<close> does not survive; and for an empty value, which \<^verbatim>\<open>parse_qs\<close>
  drops.
\<close>

theorem uri_round_trip_counterexample:
  "uri_from_dict [(''type'', ''path''), (''path'', ''/studio/c++'')]
     = Inr ''sgtk:descriptor:path?path=/studio/c++''
   \<and> dict_from_uri False ''sgtk:descriptor:path?path=/studio/c++''
       = Inr [(''type'', ''path''), (''path'', ''/studio/c  '')]
   \<and> dict_from_uri True ''sgtk:descriptor:path?path=/studio/c++''
       = Inr [(''type'', ''path''), (''path'', ''/studio/c  '')]
   \<and> map_of [(''type'', ''path''), (''path'', ''/studio/c  '')]
       \<noteq> map_of [(''type'', ''path''), (''path'', ''/studio/c++'')]
   \<and> uri_from_dict [(''type'', ''app_store'')] = Inr ''sgtk:descriptor:app_store?''
   \<and> dict_from_uri False ''sgtk:descriptor:app_store?'' = Inl PyValueError
   \<and> uri_from_dict [(''type'', ''app_store''), (''name'', [])]
       = Inr ''sgtk:descriptor:app_store?name=''
   \<and> dict_from_uri False ''sgtk:descriptor:app_store?name='' = Inr [(''type'', ''app_store'')]"
proof -
  have "map_of [(''type'', ''path''), (''path'', ''/studio/c  '')] ''path''
          \<noteq> map_of [(''type'', ''path''), (''path'', ''/studio/c++'')] ''path''"
    by simp
  then have "map_of [(''type'', ''path''), (''path'', ''/studio/c  '')]
       \<noteq> map_of [(''type'', ''path''), (''path'', ''/studio/c++'')]"
    by metis
  moreover have "uri_from_dict [(''type'', ''path''), (''path'', ''/studio/c++'')]
     = Inr ''sgtk:descriptor:path?path=/studio/c++''"
    by code_simp
  moreover have "dict_from_uri False ''sgtk:descriptor:path?path=/studio/c++''
       = Inr [(''type'', ''path''), (''path'', ''/studio/c  '')]"
    by code_simp
  moreover have "dict_from_uri True ''sgtk:descriptor:path?path=/studio/c++''
       = Inr [(''type'', ''path''), (''path'', ''/studio/c  '')]"
    by code_simp
  moreover have "uri_from_dict [(''type'', ''app_store'')] = Inr ''sgtk:descriptor:app_store?''"
    by code_simp
  moreover have "dict_from_uri False ''sgtk:descriptor:app_store?'' = Inl PyValueError"
    by code_simp
  moreover have "uri_from_dict [(''type'', ''app_store''), (''name'', [])]
       = Inr ''sgtk:descriptor:app_store?name=''"
    by code_simp
  moreover have "dict_from_uri False ''sgtk:descriptor:app_store?name='' = Inr [(''type'', ''app_store'')]"
    by code_simp
  ultimately show ?thesis by blast
qed

text \<open>An identity of the app store.\<close>

definition example_identity :: identity where
  "example_identity =
     [(''type'', ''app_store''), (''name'', ''tk-multi-loader''), (''version'', ''v1.2.3'')]"

theorem uri_round_trip_witness:
  "distinct (map fst example_identity)
   \<and> map_of example_identity ''type'' = Some ''app_store''
   \<and> free_of '':?#'' ''app_store''
   \<and> filter (\<lambda>(param, value). param \<noteq> ''type'') example_identity \<noteq> []
   \<and> list_all plain_item (filter (\<lambda>(param, value). param \<noteq> ''type'') example_identity)
   \<and> (\<exists>uri descriptor_dict.
         uri_from_dict example_identity = Inr uri
         \<and> dict_from_uri False uri = Inr descriptor_dict
         \<and> map_of descriptor_dict = map_of example_identity)"
proof -
  have h: "distinct (map fst example_identity)"
    "map_of example_identity ''type'' = Some ''app_store''"
    "free_of '':?#'' ''app_store''"
    "filter (\<lambda>(param, value). param \<noteq> ''type'') example_identity \<noteq> []"
    "list_all plain_item (filter (\<lambda>(param, value). param \<noteq> ''type'') example_identity)"
    by code_simp+
  from uri_round_trip [OF h, of False] h show ?thesis by blast
qed

end
